theory Spec2Isabelle
  imports Main "HOL-Library.Word"
begin

unbundle bit_operations_syntax

section \<open>The SIF loader of nxengine\<close>

text \<open>
  The code is the class \<^verbatim>\<open>SIFLoader\<close>, the second part of
  \<^verbatim>\<open>sdl/video/SDL_video.c\<close> in the source tree at hand.
  The loader opens a file, checks a four-byte signature, reads an index of section
  descriptors and later fetches single sections on demand, keeping each fetched
  section in a heap buffer that the descriptor points to.

  The embedding is by state passing. One record holds the two members of the
  \<^verbatim>\<open>SIFLoader\<close> object (\<open>fIndex\<close>, \<open>fFP\<close>) together with the part of the
  process the member functions touch: the heap of section buffers and the sequence
  of messages and section reads issued so far.
\<close>

subsection \<open>Machine types\<close>

type_synonym byte = "8 word"
type_synonym uint32_t = "32 word"

subsection \<open>The C file interface\<close>

text \<open>
  A \<^verbatim>\<open>FILE*\<close> opened for reading is the content of the file and a position in it.
  The position may lie behind the end of the file (after \<^verbatim>\<open>fseek\<close>); reads
  there deliver nothing.
\<close>

record FILE =
  contents :: "byte list"
  fpos :: nat

text \<open>
  The file system maps a path to the content of the file there, or to nothing when
  \<^verbatim>\<open>fopen(path, "rb")\<close> would return \<^verbatim>\<open>NULL\<close>.
\<close>

type_synonym filesystem = "string \<Rightarrow> byte list option"

definition fopen :: "filesystem \<Rightarrow> string \<Rightarrow> FILE option" where
  "fopen fs filename =
     (case fs filename of
        None \<Rightarrow> None
      | Some bs \<Rightarrow> Some \<lparr>contents = bs, fpos = 0\<rparr>)"

text \<open>\<^verbatim>\<open>fgetc\<close>: the next byte as a value in 0..255, or \<^verbatim>\<open>EOF\<close>.\<close>

definition EOF :: int where
  "EOF = - 1"

definition fgetc :: "FILE \<Rightarrow> int \<times> FILE" where
  "fgetc fp =
     (if fpos fp < length (contents fp)
      then (uint (contents fp ! fpos fp), fp\<lparr>fpos := Suc (fpos fp)\<rparr>)
      else (EOF, fp))"

text \<open>\<^verbatim>\<open>fseek(fp, off, SEEK_SET)\<close>.\<close>

definition fseek :: "FILE \<Rightarrow> nat \<Rightarrow> FILE" where
  "fseek fp off = fp\<lparr>fpos := off\<rparr>"

text \<open>
  \<^verbatim>\<open>fread(buf, n, 1, fp)\<close> into a buffer of \<open>n\<close> bytes whose content is
  indeterminate before the call. A byte of a buffer is \<open>Some b\<close> once it has a
  value and \<open>None\<close> while it is indeterminate. When fewer than \<open>n\<close> bytes are
  left in the file, the single element is read in part only, and the C standard
  leaves its value indeterminate.
\<close>

type_synonym buffer = "byte option list"

definition fread :: "nat \<Rightarrow> FILE \<Rightarrow> buffer \<times> FILE" where
  "fread n fp =
     (let avail = drop (fpos fp) (contents fp)
      in if n \<le> length avail
         then (map Some (take n avail), fp\<lparr>fpos := fpos fp + n\<rparr>)
         else (replicate n None, fp\<lparr>fpos := fpos fp + length avail\<rparr>))"

text \<open>
  Modelled from the spec: \<^verbatim>\<open>fgetl\<close> is called by the loader and defined outside
  the file at hand. The specification describes the fields it reads
  as 4-byte little-endian values; the model reads four bytes with \<open>fgetc\<close> and
  assembles them with the first byte least significant, in 32-bit unsigned
  arithmetic, so that a byte missing at the end of the file contributes the bits of
  \<open>EOF\<close>.
\<close>

definition fgetl :: "FILE \<Rightarrow> uint32_t \<times> FILE" where
  "fgetl fp =
     (let (a, fp1) = fgetc fp;
          (b, fp2) = fgetc fp1;
          (c, fp3) = fgetc fp2;
          (d, fp4) = fgetc fp3
      in (push_bit 24 (word_of_int d) OR push_bit 16 (word_of_int c)
            OR push_bit 8 (word_of_int b) OR word_of_int a, fp4))"

subsection \<open>The loader's data\<close>

text \<open>
  \<^verbatim>\<open>#define SIF_MAGICK 'SIF2'\<close>: a multi-character constant, whose value is
  implementation-defined; GCC, Clang and MSVC all give
  \<open>(('S' * 256 + 'I') * 256 + 'F') * 256 + '2'\<close>.
\<close>

definition SIF_MAGICK :: uint32_t where
  "SIF_MAGICK = 0x53494632"

text \<open>
  Modelled from the spec: \<^verbatim>\<open>struct SIFIndexEntry\<close> is declared in
  \<^verbatim>\<open>sifloader.h\<close>, which is not part of the file at hand. The specification gives
  a descriptor a small integer type tag, an unsigned 32-bit file offset, an unsigned
  32-bit length and an owned buffer that may be absent. The tag holds what
  \<open>fgetc\<close> returned; the buffer is a heap address, \<open>None\<close> for \<^verbatim>\<open>NULL\<close>.
\<close>

record SIFIndexEntry =
  type :: int
  foffset :: uint32_t
  length_sif :: uint32_t
  data :: "nat option"

text \<open>
  What the loader sends to the log, and the section reads it issues, each with the
  type that was asked for, the offset and the length.
\<close>

datatype event =
    ERR_open_failed string
  | ERR_magick_failed
  | ERR_expected_got uint32_t uint32_t
  | ERR_handle_closed
  | LOG_read_index int
  | LOG_loading int uint32_t
  | FREAD int uint32_t uint32_t

record state =
  fIndex :: "SIFIndexEntry list"
  fFP :: "FILE option"
  heap :: "nat \<rightharpoonup> buffer"
  brk :: nat
  trace :: "event list"

text \<open>The constructor: \<^verbatim>\<open>fFP = NULL\<close>, and the list starts empty.\<close>

definition SIFLoader :: state where
  "SIFLoader = \<lparr>fIndex = [], fFP = None, heap = Map.empty, brk = 0, trace = []\<rparr>"

definition NX_ERR :: "event \<Rightarrow> state \<Rightarrow> state" where
  "NX_ERR e s = s\<lparr>trace := trace s @ [e]\<rparr>"

definition NX_LOG :: "event \<Rightarrow> state \<Rightarrow> state" where
  "NX_LOG e s = s\<lparr>trace := trace s @ [e]\<rparr>"

text \<open>
  \<^verbatim>\<open>malloc\<close> hands out a fresh block, never \<^verbatim>\<open>NULL\<close> (also for size 0, as
  glibc does), with indeterminate content; \<^verbatim>\<open>free\<close> gives the block back.
\<close>

definition malloc :: "nat \<Rightarrow> state \<Rightarrow> nat \<times> state" where
  "malloc n s =
     (brk s, s\<lparr>heap := (heap s)(brk s \<mapsto> replicate n None), brk := Suc (brk s)\<rparr>)"

definition free :: "nat \<Rightarrow> state \<Rightarrow> state" where
  "free a s = s\<lparr>heap := (heap s)(a := None)\<rparr>"

text \<open>\<^verbatim>\<open>BList::ItemAt\<close>: the item at an index, \<^verbatim>\<open>NULL\<close> out of range.\<close>

definition ItemAt :: "'a list \<Rightarrow> nat \<Rightarrow> 'a option" where
  "ItemAt xs i = (if i < length xs then Some (xs ! i) else None)"

subsection \<open>ClearIndex and CloseFile\<close>

function ClearIndex_loop :: "nat \<Rightarrow> state \<Rightarrow> state" where
  "ClearIndex_loop i s =
     (case ItemAt (fIndex s) i of
        None \<Rightarrow> s
      | Some entry \<Rightarrow>
          ClearIndex_loop (Suc i)
            (case data entry of Some a \<Rightarrow> free a s | None \<Rightarrow> s))"
  by pat_completeness auto
termination
  by (relation "measure (\<lambda>(i, s). length (fIndex s) - i)")
     (auto simp: ItemAt_def free_def split: if_splits option.splits)

declare ClearIndex_loop.simps [simp del]

definition ClearIndex :: "state \<Rightarrow> state" where
  "ClearIndex s = (ClearIndex_loop 0 s)\<lparr>fIndex := []\<rparr>"

definition CloseFile :: "state \<Rightarrow> state" where
  "CloseFile s =
     (let s1 = ClearIndex s
      in case fFP s1 of
           Some fp \<Rightarrow> s1\<lparr>fFP := None\<rparr>
         | None \<Rightarrow> s1)"

subsection \<open>LoadHeader\<close>

text \<open>The loop that reads the descriptors, appending each to the index.\<close>

function LoadHeader_loop ::
  "int \<Rightarrow> int \<Rightarrow> FILE \<Rightarrow> SIFIndexEntry list \<Rightarrow> SIFIndexEntry list \<times> FILE" where
  "LoadHeader_loop i nsections fp idx =
     (if i < nsections
      then (let (ty, fp1) = fgetc fp;
                (off, fp2) = fgetl fp1;
                (len, fp3) = fgetl fp2;
                entry = \<lparr>type = ty, foffset = off, length_sif = len, data = None\<rparr>
            in LoadHeader_loop (i + 1) nsections fp3 (idx @ [entry]))
      else (idx, fp))"
  by pat_completeness auto
termination
  by (relation "measure (\<lambda>(i, nsections, fp, idx). nat (nsections - i))") auto

declare LoadHeader_loop.simps [simp del]

text \<open>
  The result is the C \<^verbatim>\<open>bool\<close>: \<open>True\<close> for \<^verbatim>\<open>return 1\<close>. The call
  \<^verbatim>\<open>if (fFP) fclose(fFP)\<close> has no counterpart: a handle is a value here, and the
  one held before is dropped when \<open>fFP\<close> is assigned.
\<close>

definition LoadHeader :: "filesystem \<Rightarrow> string \<Rightarrow> state \<Rightarrow> bool \<times> state" where
  "LoadHeader fs filename s =
     (let s1 = ClearIndex s
      in case fopen fs filename of
           None \<Rightarrow> (True, NX_ERR (ERR_open_failed filename) (s1\<lparr>fFP := None\<rparr>))
         | Some fp \<Rightarrow>
             (let (magick, fp1) = fgetl fp;
                  s2 = s1\<lparr>fFP := Some fp1\<rparr>
              in if magick \<noteq> SIF_MAGICK
                 then (True, NX_ERR (ERR_expected_got SIF_MAGICK magick)
                               (NX_ERR ERR_magick_failed s2))
                 else (let (nsections, fp2) = fgetc fp1;
                           s3 = NX_LOG (LOG_read_index nsections) (s2\<lparr>fFP := Some fp2\<rparr>);
                           (idx, fp3) = LoadHeader_loop 0 nsections fp2 (fIndex s3)
                       in (False, s3\<lparr>fIndex := idx, fFP := Some fp3\<rparr>))))"

subsection \<open>FindSection\<close>

text \<open>
  The result is the returned pointer, what was stored through \<^verbatim>\<open>length_out\<close>
  (\<open>None\<close> when nothing was stored there) and the state afterwards. The argument
  \<open>length_out\<close> says whether the pointer passed is other than \<^verbatim>\<open>NULL\<close>.
\<close>

definition store_out :: "bool \<Rightarrow> uint32_t \<Rightarrow> uint32_t option" where
  "store_out length_out v = (if length_out then Some v else None)"

function FindSection_loop ::
  "nat \<Rightarrow> int \<Rightarrow> bool \<Rightarrow> state \<Rightarrow> nat option \<times> uint32_t option \<times> state" where
  "FindSection_loop i ty length_out s =
     (case ItemAt (fIndex s) i of
        None \<Rightarrow> (None, store_out length_out 0, s)
      | Some entry \<Rightarrow>
          if type entry = ty
          then (case data entry of
                  Some a \<Rightarrow> (Some a, store_out length_out (length_sif entry), s)
                | None \<Rightarrow>
                    (case fFP s of
                       None \<Rightarrow> (None, store_out length_out 0, NX_ERR ERR_handle_closed s)
                     | Some fp \<Rightarrow>
                         (let s1 = NX_LOG (LOG_loading ty (foffset entry)) s;
                              (a, s2) = malloc (unat (length_sif entry)) s1;
                              fp1 = fseek fp (unat (foffset entry));
                              (buf, fp2) = fread (unat (length_sif entry)) fp1;
                              s3 = s2\<lparr>fIndex := (fIndex s2)[i := entry\<lparr>data := Some a\<rparr>],
                                      heap := (heap s2)(a \<mapsto> buf),
                                      fFP := Some fp2,
                                      trace := trace s2 @ [FREAD ty (foffset entry) (length_sif entry)]\<rparr>
                          in (Some a, store_out length_out (length_sif entry), s3))))
          else FindSection_loop (Suc i) ty length_out s)"
  by pat_completeness auto
termination
  by (relation "measure (\<lambda>(i, ty, length_out, s). length (fIndex s) - i)")
     (auto simp: ItemAt_def split: if_splits)

declare FindSection_loop.simps [simp del]

definition FindSection :: "int \<Rightarrow> bool \<Rightarrow> state \<Rightarrow> nat option \<times> uint32_t option \<times> state" where
  "FindSection ty length_out s = FindSection_loop 0 ty length_out s"

subsection \<open>Notions the properties are stated with\<close>

text \<open>The number of section reads issued so far.\<close>

fun is_FREAD :: "event \<Rightarrow> bool" where
  "is_FREAD (FREAD ty off len) = True"
| "is_FREAD _ = False"

definition disk_reads :: "state \<Rightarrow> nat" where
  "disk_reads s = length (filter is_FREAD (trace s))"

text \<open>The number of reads issued so far for the section of one type.\<close>

fun is_FREAD_of :: "int \<Rightarrow> event \<Rightarrow> bool" where
  "is_FREAD_of ty (FREAD ty' off len) = (ty' = ty)"
| "is_FREAD_of ty _ = False"

definition section_reads :: "int \<Rightarrow> state \<Rightarrow> nat" where
  "section_reads ty s = length (filter (is_FREAD_of ty) (trace s))"

text \<open>The states a loader can be in: those its member functions lead to.\<close>

inductive reachable :: "state \<Rightarrow> bool" where
  constructed: "reachable SIFLoader"
| loaded: "reachable s \<Longrightarrow> reachable (snd (LoadHeader fs filename s))"
| found: "reachable s \<Longrightarrow> reachable (snd (snd (FindSection ty length_out s)))"
| cleared: "reachable s \<Longrightarrow> reachable (ClearIndex s)"
| closed: "reachable s \<Longrightarrow> reachable (CloseFile s)"

text \<open>Every buffer a descriptor points to is a block that was allocated and not freed.\<close>

definition buffers_allocated :: "state \<Rightarrow> bool" where
  "buffers_allocated s \<longleftrightarrow>
     (\<forall>e \<in> set (fIndex s). \<forall>a. data e = Some a \<longrightarrow> a < brk s \<and> heap s a \<noteq> None)"

text \<open>
  The file format in the words of the specification: bytes 0 to 3 are the signature,
  byte 4 is the section count, then follow descriptors of 9 bytes each, a type byte,
  a little-endian offset and a little-endian length.
\<close>

definition SIF_MAGICK_bytes :: "byte list" where
  "SIF_MAGICK_bytes = [0x32, 0x46, 0x49, 0x53]"

definition le32 :: "byte list \<Rightarrow> nat \<Rightarrow> uint32_t" where
  "le32 bs k =
     word_of_nat (unat (bs ! k) + 2 ^ 8 * unat (bs ! (k + 1))
                  + 2 ^ 16 * unat (bs ! (k + 2)) + 2 ^ 24 * unat (bs ! (k + 3)))"

definition section_count :: "byte list \<Rightarrow> nat" where
  "section_count bs = unat (bs ! 4)"

definition declared :: "byte list \<Rightarrow> nat \<Rightarrow> SIFIndexEntry" where
  "declared bs i =
     \<lparr>type = uint (bs ! (5 + 9 * i)),
      foffset = le32 bs (6 + 9 * i),
      length_sif = le32 bs (10 + 9 * i),
      data = None\<rparr>"

text \<open>The bytes of the file a descriptor points to.\<close>

definition payload :: "byte list \<Rightarrow> SIFIndexEntry \<Rightarrow> byte list" where
  "payload bs e = take (unat (length_sif e)) (drop (unat (foffset e)) bs)"

text \<open>
  A well-formed file: the signature, a count byte, all the descriptors the count
  announces, and every section inside the file.
\<close>

definition wellformed_sif :: "byte list \<Rightarrow> bool" where
  "wellformed_sif bs \<longleftrightarrow>
     take 4 bs = SIF_MAGICK_bytes \<and>
     5 + 9 * section_count bs \<le> length bs \<and>
     list_all (\<lambda>i. unat (foffset (declared bs i)) + unat (length_sif (declared bs i)) \<le> length bs)
       [0..<section_count bs]"

text \<open>A client that looks up one type after the other.\<close>

fun FindSections :: "int list \<Rightarrow> state \<Rightarrow> state" where
  "FindSections [] s = s"
| "FindSections (ty # tys) s = FindSections tys (snd (snd (FindSection ty True s)))"

text \<open>
  The state of a loader that holds the index of the file \<open>bs\<close>: the file is open, the
  descriptors are the declared ones, and every buffer a descriptor points to was
  allocated before and holds the bytes of its section.
\<close>

definition holds_index :: "byte list \<Rightarrow> state \<Rightarrow> bool" where
  "holds_index bs s \<longleftrightarrow>
     (\<exists>fp. fFP s = Some fp \<and> contents fp = bs) \<and>
     length (fIndex s) = section_count bs \<and>
     (\<forall>k < section_count bs.
        type (fIndex s ! k) = type (declared bs k) \<and>
        foffset (fIndex s ! k) = foffset (declared bs k) \<and>
        length_sif (fIndex s ! k) = length_sif (declared bs k) \<and>
        (\<forall>a. data (fIndex s ! k) = Some a \<longrightarrow>
           a < brk s \<and> heap s a = Some (map Some (payload bs (declared bs k)))))"

subsection \<open>A sample file\<close>

text \<open>Two sections: type 1, four bytes at offset 23; type 2, eight bytes at offset 27.\<close>

definition example_file :: "byte list" where
  "example_file =
     [0x32, 0x46, 0x49, 0x53, 2,
      1, 23, 0, 0, 0, 4, 0, 0, 0,
      2, 27, 0, 0, 0, 8, 0, 0, 0,
      10, 11, 12, 13,
      20, 21, 22, 23, 24, 25, 26, 27]"

definition example_fs :: filesystem where
  "example_fs =
     map_of [(''sprites.sif'', example_file), (''readme.txt'', [0x6e, 0x78, 0x0a, 0x0a, 0x0a])]"

text \<open>The loader after the header of the sample file has been read.\<close>

definition example_loaded :: state where
  "example_loaded =
     \<lparr>fIndex = [\<lparr>type = 1, foffset = 23, length_sif = 4, data = None\<rparr>,
                \<lparr>type = 2, foffset = 27, length_sif = 8, data = None\<rparr>],
      fFP = Some \<lparr>contents = example_file, fpos = 23\<rparr>,
      heap = Map.empty, brk = 0, trace = [LOG_read_index 2]\<rparr>"

text \<open>
  States the member functions never produce but the record admits: an index with two
  descriptors of one type, and descriptors without an open file.
\<close>

definition example_duplicates :: state where
  "example_duplicates =
     \<lparr>fIndex = [\<lparr>type = 2, foffset = 27, length_sif = 8, data = None\<rparr>,
                \<lparr>type = 1, foffset = 23, length_sif = 4, data = Some 0\<rparr>,
                \<lparr>type = 1, foffset = 27, length_sif = 8, data = Some 1\<rparr>],
      fFP = Some \<lparr>contents = example_file, fpos = 27\<rparr>,
      heap = [0 \<mapsto> map Some [10, 11, 12, 13], 1 \<mapsto> map Some [20, 21, 22, 23, 24, 25, 26, 27]],
      brk = 2, trace = []\<rparr>"

definition example_closed :: state where
  "example_closed =
     \<lparr>fIndex = [\<lparr>type = 1, foffset = 23, length_sif = 4, data = None\<rparr>],
      fFP = None, heap = Map.empty, brk = 0, trace = []\<rparr>"

section \<open>Properties\<close>

subsection \<open>ClearIndex\<close>

lemma ClearIndex_loop_fIndex [simp]: "fIndex (ClearIndex_loop i s) = fIndex s"
  by (induction i s rule: ClearIndex_loop.induct, subst ClearIndex_loop.simps)
     (auto simp: free_def split: option.splits)

lemma ClearIndex_loop_fFP [simp]: "fFP (ClearIndex_loop i s) = fFP s"
  by (induction i s rule: ClearIndex_loop.induct, subst ClearIndex_loop.simps)
     (auto simp: free_def split: option.splits)

lemma ClearIndex_loop_trace [simp]: "trace (ClearIndex_loop i s) = trace s"
  by (induction i s rule: ClearIndex_loop.induct, subst ClearIndex_loop.simps)
     (auto simp: free_def split: option.splits)

lemma ClearIndex_loop_brk [simp]: "brk (ClearIndex_loop i s) = brk s"
  by (induction i s rule: ClearIndex_loop.induct, subst ClearIndex_loop.simps)
     (auto simp: free_def split: option.splits)

text \<open>The loop frees exactly the buffers the descriptors from \<open>i\<close> on point to.\<close>

lemma ClearIndex_loop_heap:
  "heap (ClearIndex_loop i s) a =
     (if \<exists>e \<in> set (drop i (fIndex s)). data e = Some a then None else heap s a)"
proof (induction i s rule: ClearIndex_loop.induct)
  case (1 i s)
  show ?case
  proof (cases "i < length (fIndex s)")
    case False
    then show ?thesis
      by (subst ClearIndex_loop.simps) (simp add: ItemAt_def)
  next
    case True
    then have d: "drop i (fIndex s) = fIndex s ! i # drop (Suc i) (fIndex s)"
      by (simp add: Cons_nth_drop_Suc)
    have it: "ItemAt (fIndex s) i = Some (fIndex s ! i)"
      using True by (simp add: ItemAt_def)
    show ?thesis
      by (subst ClearIndex_loop.simps, use 1 [OF it] d in \<open>auto simp: it free_def split: option.splits\<close>)
  qed
qed

subsection \<open>The scan of FindSection\<close>

lemma FindSection_loop_none:
  "\<forall>e \<in> set (drop i (fIndex s)). type e \<noteq> ty \<Longrightarrow>
   FindSection_loop i ty lo s = (None, store_out lo 0, s)"
proof (induction i ty lo s rule: FindSection_loop.induct)
  case (1 i ty lo s)
  show ?case
  proof (cases "i < length (fIndex s)")
    case False
    then show ?thesis
      by (subst FindSection_loop.simps) (simp add: ItemAt_def)
  next
    case True
    then have d: "drop i (fIndex s) = fIndex s ! i # drop (Suc i) (fIndex s)"
      by (simp add: Cons_nth_drop_Suc)
    have it: "ItemAt (fIndex s) i = Some (fIndex s ! i)"
      using True by (simp add: ItemAt_def)
    from 1(2) d have ne: "type (fIndex s ! i) \<noteq> ty"
      and rest: "\<forall>e \<in> set (drop (Suc i) (fIndex s)). type e \<noteq> ty"
      by auto
    show ?thesis
      by (subst FindSection_loop.simps, use 1(1) [OF it ne rest] ne in \<open>simp add: it\<close>)
  qed
qed

text \<open>Descriptors of another type are passed over.\<close>

lemma FindSection_loop_skip:
  "FindSection_loop (length pre) ty lo s = r \<Longrightarrow> fIndex s = pre @ rest \<Longrightarrow>
   \<forall>x \<in> set pre. type x \<noteq> ty \<Longrightarrow> i \<le> length pre \<Longrightarrow>
   FindSection_loop i ty lo s = r"
proof (induction i ty lo s rule: FindSection_loop.induct)
  case (1 i ty lo s)
  show ?case
  proof (cases "i = length pre")
    case True
    with 1 show ?thesis by simp
  next
    case False
    with 1 have lt: "i < length pre" by simp
    then have it: "ItemAt (fIndex s) i = Some (pre ! i)"
      using 1 by (simp add: ItemAt_def nth_append)
    have ne: "type (pre ! i) \<noteq> ty"
      using lt 1 by simp
    have "FindSection_loop (Suc i) ty lo s = r"
      using 1(1) [OF it ne 1(2) 1(3) 1(4)] lt by simp
    then show ?thesis
      by (subst FindSection_loop.simps) (simp add: it ne)
  qed
qed

text \<open>What the call does at the first descriptor of the type asked for.\<close>

lemma FindSection_first:
  assumes idx: "fIndex s = pre @ e # post"
    and pre: "\<forall>x \<in> set pre. type x \<noteq> ty"
    and e: "type e = ty"
  shows "FindSection ty lo s =
    (case data e of
       Some a \<Rightarrow> (Some a, store_out lo (length_sif e), s)
     | None \<Rightarrow>
        (case fFP s of
           None \<Rightarrow> (None, store_out lo 0, NX_ERR ERR_handle_closed s)
         | Some fp \<Rightarrow>
            (Some (brk s), store_out lo (length_sif e),
             s\<lparr>fIndex := pre @ e\<lparr>data := Some (brk s)\<rparr> # post,
               fFP := Some (snd (fread (unat (length_sif e)) (fseek fp (unat (foffset e))))),
               heap := (heap s)(brk s \<mapsto>
                         fst (fread (unat (length_sif e)) (fseek fp (unat (foffset e))))),
               brk := Suc (brk s),
               trace := trace s @ [LOG_loading ty (foffset e),
                                   FREAD ty (foffset e) (length_sif e)]\<rparr>)))"
proof -
  have it: "ItemAt (fIndex s) (length pre) = Some e"
    by (simp add: idx ItemAt_def)
  have upd: "(fIndex s)[length pre := x] = pre @ x # post" for x
    by (simp add: idx)
  show ?thesis
    unfolding FindSection_def
    apply (rule FindSection_loop_skip [OF _ idx pre])
     apply (subst FindSection_loop.simps)
     apply (simp add: it e upd malloc_def NX_LOG_def Let_def split: option.splits prod.splits)
    apply simp
    done
qed

lemma FindSection_none:
  "\<forall>e \<in> set (fIndex s). type e \<noteq> ty \<Longrightarrow>
   FindSection ty lo s = (None, store_out lo 0, s)"
  by (simp add: FindSection_def FindSection_loop_none)

text \<open>Either no descriptor has the type, or there is a first one.\<close>

lemma first_of_type:
  obtains (none) "\<forall>e \<in> set xs. type e \<noteq> ty"
  | (first) pre e post where "xs = pre @ e # post" "\<forall>x \<in> set pre. type x \<noteq> ty" "type e = ty"
proof (cases "\<exists>e \<in> set xs. type e = ty")
  case False
  then show ?thesis by (intro none) blast
next
  case True
  from split_list_first_prop [OF this]
  obtain pre e post where "xs = pre @ e # post" "type e = ty" "\<forall>x \<in> set pre. type x \<noteq> ty"
    by blast
  then show ?thesis by (intro first)
qed

subsection \<open>Claims about FindSection and ClearIndex\<close>

text \<open>
  C5. When no descriptor of the index has the type asked for, \<open>FindSection\<close> returns
  the null pointer, stores length 0 through \<open>length_out\<close> (when that is not null),
  reports no error and leaves the whole state, the log included, as it was.
\<close>

theorem FindSection_not_found:
  assumes "\<forall>e \<in> set (fIndex s). type e \<noteq> ty"
  shows "FindSection ty True s = (None, Some 0, s) \<and> FindSection ty False s = (None, None, s)"
  using assms by (simp add: FindSection_none store_out_def)

theorem FindSection_not_found_witness:
  "map type (fIndex example_loaded) = [1, 2]
   \<and> FindSection 3 True example_loaded = (None, Some 0, example_loaded)
   \<and> FindSection 3 False example_loaded = (None, None, example_loaded)"
proof -
  have h: "\<forall>e \<in> set (fIndex example_loaded). type e \<noteq> 3"
    by (simp add: example_loaded_def)
  have "map type (fIndex example_loaded) = [1, 2]"
    by (simp add: example_loaded_def)
  with FindSection_not_found [OF h] show ?thesis by simp
qed

text \<open>
  C4. When the first descriptor of the type asked for has no buffer yet and no file is
  open, \<open>FindSection\<close> returns the null pointer and length 0, reports the error
  (the message is appended to the log) and changes nothing else: the descriptor
  still has no buffer.
\<close>

theorem FindSection_handle_closed:
  assumes "fIndex s = pre @ e # post"
    and "\<forall>x \<in> set pre. type x \<noteq> ty"
    and "type e = ty"
    and "data e = None"
    and "fFP s = None"
  shows "FindSection ty True s = (None, Some 0, s\<lparr>trace := trace s @ [ERR_handle_closed]\<rparr>)
       \<and> FindSection ty False s = (None, None, s\<lparr>trace := trace s @ [ERR_handle_closed]\<rparr>)"
  using assms by (simp add: FindSection_first store_out_def NX_ERR_def)

theorem FindSection_handle_closed_witness:
  "fIndex example_closed = [] @ \<lparr>type = 1, foffset = 23, length_sif = 4, data = None\<rparr> # []
   \<and> fFP example_closed = None
   \<and> FindSection 1 True example_closed
       = (None, Some 0, example_closed\<lparr>trace := [ERR_handle_closed]\<rparr>)
   \<and> fIndex (snd (snd (FindSection 1 True example_closed))) = fIndex example_closed"
proof -
  have h: "fIndex example_closed = [] @ \<lparr>type = 1, foffset = 23, length_sif = 4, data = None\<rparr> # []"
    and c: "fFP example_closed = None" and t: "trace example_closed = []"
    by (simp_all add: example_closed_def)
  from FindSection_handle_closed [OF h _ _ _ c, of 1] h c t show ?thesis by simp
qed

text \<open>
  C8. The first descriptor of the type asked for decides the result, whatever follows
  it in the index. If it has a buffer, that buffer and its length are returned and
  the state stays as it is. If it has none and a file is open, a new buffer is filled
  by one read of its length at its offset, becomes the buffer of this descriptor
  (and of no other) and is returned. If it has none and no file is open, the null
  pointer is returned and the index stays as it is.
\<close>

theorem FindSection_first_match:
  assumes "fIndex s = pre @ e # post"
    and "\<forall>x \<in> set pre. type x \<noteq> ty"
    and "type e = ty"
    and "FindSection ty lo s = (p, out, s')"
  shows "case data e of
           Some a \<Rightarrow> p = Some a \<and> out = store_out lo (length_sif e) \<and> s' = s
         | None \<Rightarrow>
             (case fFP s of
                Some fp \<Rightarrow>
                  p = Some (brk s) \<and> out = store_out lo (length_sif e)
                  \<and> fIndex s' = pre @ e\<lparr>data := Some (brk s)\<rparr> # post
                  \<and> heap s' (brk s)
                      = Some (fst (fread (unat (length_sif e)) (fseek fp (unat (foffset e)))))
              | None \<Rightarrow> p = None \<and> out = store_out lo 0 \<and> fIndex s' = fIndex s)"
proof -
  note r = FindSection_first [OF assms(1-3), of lo, unfolded assms(4)]
  show ?thesis
  proof (cases "data e")
    case (Some a)
    with r have "p = Some a" "out = store_out lo (length_sif e)" "s' = s"
      by simp_all
    then show ?thesis
      by (simp add: Some)
  next
    case None
    show ?thesis
    proof (cases "fFP s")
      case no_fp: None
      with r None have "p = None" "out = store_out lo 0" "s' = NX_ERR ERR_handle_closed s"
        by simp_all
      then show ?thesis
        by (simp add: None no_fp NX_ERR_def)
    next
      case (Some fp)
      with r None show ?thesis
        by simp
    qed
  qed
qed

theorem FindSection_first_match_witness:
  "fIndex example_duplicates
     = [\<lparr>type = 2, foffset = 27, length_sif = 8, data = None\<rparr>]
       @ \<lparr>type = 1, foffset = 23, length_sif = 4, data = Some 0\<rparr>
       # [\<lparr>type = 1, foffset = 27, length_sif = 8, data = Some 1\<rparr>]
   \<and> fst (FindSection 1 True example_duplicates) = Some 0
   \<and> fst (snd (FindSection 1 True example_duplicates)) = Some 4
   \<and> snd (snd (FindSection 1 True example_duplicates)) = example_duplicates"
proof -
  have h: "fIndex example_duplicates
     = [\<lparr>type = 2, foffset = 27, length_sif = 8, data = None\<rparr>]
       @ \<lparr>type = 1, foffset = 23, length_sif = 4, data = Some 0\<rparr>
       # [\<lparr>type = 1, foffset = 27, length_sif = 8, data = Some 1\<rparr>]"
    by (simp add: example_duplicates_def)
  obtain p out s' where r: "FindSection 1 True example_duplicates = (p, out, s')"
    by (cases "FindSection 1 True example_duplicates")
  from FindSection_first_match [OF h _ _ r] h r show ?thesis
    by (simp add: store_out_def)
qed

text \<open>
  C10. With a null \<open>length_out\<close> nothing is stored through it, and the pointer
  returned and the state afterwards are those of the call with a pointer that is not
  null: in every state, so whether the section is found, not found, or cannot be
  loaded because no file is open.
\<close>

theorem FindSection_null_length_out:
  "fst (FindSection ty False s) = fst (FindSection ty True s)
   \<and> fst (snd (FindSection ty False s)) = None
   \<and> snd (snd (FindSection ty False s)) = snd (snd (FindSection ty True s))"
proof (cases "fIndex s" ty rule: first_of_type)
  case none
  then show ?thesis
    by (simp add: FindSection_none store_out_def)
next
  case (first pre e post)
  then show ?thesis
    by (simp add: FindSection_first store_out_def split: option.splits)
qed

theorem FindSection_null_length_out_witness:
  "fst (FindSection 1 True example_duplicates) = Some 0
   \<and> FindSection 1 False example_duplicates = (Some 0, None, example_duplicates)"
proof -
  have h: "fIndex example_duplicates
     = [\<lparr>type = 2, foffset = 27, length_sif = 8, data = None\<rparr>]
       @ \<lparr>type = 1, foffset = 23, length_sif = 4, data = Some 0\<rparr>
       # [\<lparr>type = 1, foffset = 27, length_sif = 8, data = Some 1\<rparr>]"
    by (simp add: example_duplicates_def)
  have t: "FindSection 1 True example_duplicates = (Some 0, Some 4, example_duplicates)"
    using FindSection_first [OF h, of "1::int" True] by (simp add: store_out_def)
  from FindSection_null_length_out [of 1 example_duplicates] t show ?thesis
    by (cases "FindSection 1 False example_duplicates") simp
qed

text \<open>
  C6. \<open>ClearIndex\<close> empties the index, frees the buffer of every descriptor that has
  one, leaves every other block of the heap and the file handle as they were, and
  after it \<open>FindSection\<close> finds no section of any type.
\<close>

theorem ClearIndex_effect:
  "fIndex (ClearIndex s) = [] \<and> fFP (ClearIndex s) = fFP s
   \<and> (\<forall>e \<in> set (fIndex s). \<forall>a. data e = Some a \<longrightarrow> heap (ClearIndex s) a = None)
   \<and> (\<forall>a. (\<forall>e \<in> set (fIndex s). data e \<noteq> Some a) \<longrightarrow> heap (ClearIndex s) a = heap s a)
   \<and> FindSection ty True (ClearIndex s) = (None, Some 0, ClearIndex s)
   \<and> FindSection ty False (ClearIndex s) = (None, None, ClearIndex s)"
proof -
  have "fIndex (ClearIndex s) = []"
    by (simp add: ClearIndex_def)
  then show ?thesis
    by (auto simp: FindSection_none store_out_def) (auto simp: ClearIndex_def ClearIndex_loop_heap)
qed

theorem ClearIndex_effect_witness:
  "\<lparr>type = 1, foffset = 23, length_sif = 4, data = Some 0\<rparr> \<in> set (fIndex example_duplicates)
   \<and> heap example_duplicates 0 = Some (map Some [10, 11, 12, 13])
   \<and> heap (ClearIndex example_duplicates) 0 = None
   \<and> fIndex (ClearIndex example_duplicates) = []
   \<and> fFP (ClearIndex example_duplicates) = Some \<lparr>contents = example_file, fpos = 27\<rparr>
   \<and> fst (FindSection 1 True (ClearIndex example_duplicates)) = None"
proof -
  have h: "\<lparr>type = 1, foffset = 23, length_sif = 4, data = Some 0\<rparr> \<in> set (fIndex example_duplicates)"
    and hp: "heap example_duplicates 0 = Some (map Some [10, 11, 12, 13])"
    and fp: "fFP example_duplicates = Some \<lparr>contents = example_file, fpos = 27\<rparr>"
    by (simp_all add: example_duplicates_def)
  from ClearIndex_effect [of example_duplicates 1] h hp fp show ?thesis
    by auto
qed

subsection \<open>Reading the header\<close>

text \<open>Four bytes put together with shifts are the little-endian number.\<close>

lemma le_bytes_or_add:
  fixes a b c d :: byte
  shows "(push_bit 24 (ucast d) OR push_bit 16 (ucast c) OR push_bit 8 (ucast b) OR ucast a :: uint32_t)
       = word_of_nat (unat a + 2 ^ 8 * unat b + 2 ^ 16 * unat c + 2 ^ 24 * unat d)"
proof -
  let ?A = "ucast a :: uint32_t" and ?B = "push_bit 8 (ucast b) :: uint32_t"
  and ?C = "push_bit 16 (ucast c) :: uint32_t" and ?D = "push_bit 24 (ucast d) :: uint32_t"
  have 1: "?B + ?A = ?B OR ?A"
    by (rule disjunctive_add_eq_or) (auto simp: bit_eq_iff bit_simps dest: bit_imp_le_length)
  have 2: "?C + (?B OR ?A) = ?C OR (?B OR ?A)"
    by (rule disjunctive_add_eq_or) (auto simp: bit_eq_iff bit_simps dest: bit_imp_le_length)
  have 3: "?D + (?C OR (?B OR ?A)) = ?D OR (?C OR (?B OR ?A))"
    by (rule disjunctive_add_eq_or) (auto simp: bit_eq_iff bit_simps dest: bit_imp_le_length)
  have "?D OR ?C OR ?B OR ?A = ?D + (?C + (?B + ?A))"
    using 1 2 3 by (simp add: ac_simps)
  also have "\<dots> = word_of_nat (unat a + 2 ^ 8 * unat b + 2 ^ 16 * unat c + 2 ^ 24 * unat d)"
    by (simp add: push_bit_eq_mult ac_simps)
  finally show ?thesis .
qed

lemma fgetc_at:
  "k < length (contents fp) \<Longrightarrow>
   fgetc (fp\<lparr>fpos := k\<rparr>) = (uint (contents fp ! k), fp\<lparr>fpos := Suc k\<rparr>)"
  by (simp add: fgetc_def)

lemma fgetl_at:
  assumes "k + 4 \<le> length (contents fp)"
  shows "fgetl (fp\<lparr>fpos := k\<rparr>) = (le32 (contents fp) k, fp\<lparr>fpos := k + 4\<rparr>)"
proof -
  have n: "k + 1 = Suc k" "k + 2 = Suc (Suc k)" "k + 3 = Suc (Suc (Suc k))"
    "k + 4 = Suc (Suc (Suc (Suc k)))"
    by simp_all
  have 1: "fgetc (fp\<lparr>fpos := k\<rparr>) = (uint (contents fp ! k), fp\<lparr>fpos := Suc k\<rparr>)"
    using assms by (simp add: fgetc_at)
  have 2: "fgetc (fp\<lparr>fpos := Suc k\<rparr>)
             = (uint (contents fp ! Suc k), fp\<lparr>fpos := Suc (Suc k)\<rparr>)"
    using assms by (simp add: fgetc_at)
  have 3: "fgetc (fp\<lparr>fpos := Suc (Suc k)\<rparr>)
             = (uint (contents fp ! Suc (Suc k)), fp\<lparr>fpos := Suc (Suc (Suc k))\<rparr>)"
    using assms by (simp add: fgetc_at)
  have 4: "fgetc (fp\<lparr>fpos := Suc (Suc (Suc k))\<rparr>)
             = (uint (contents fp ! Suc (Suc (Suc k))), fp\<lparr>fpos := Suc (Suc (Suc (Suc k)))\<rparr>)"
    using assms by (simp add: fgetc_at)
  have "fgetl (fp\<lparr>fpos := k\<rparr>)
      = (push_bit 24 (ucast (contents fp ! Suc (Suc (Suc k))))
         OR push_bit 16 (ucast (contents fp ! Suc (Suc k)))
         OR push_bit 8 (ucast (contents fp ! Suc k))
         OR ucast (contents fp ! k), fp\<lparr>fpos := Suc (Suc (Suc (Suc k)))\<rparr>)"
    by (simp add: fgetl_def 1 2 3 4)
  then show ?thesis
    unfolding le_bytes_or_add le32_def n by simp
qed


lemma le_bytes_inject:
  fixes a b c d :: byte
  assumes "(push_bit 24 (ucast d) OR push_bit 16 (ucast c) OR push_bit 8 (ucast b) OR ucast a :: uint32_t) = w"
  shows "a = ucast w" "b = ucast (drop_bit 8 w)" "c = ucast (drop_bit 16 w)" "d = ucast (drop_bit 24 w)"
  unfolding assms [symmetric]
  by (rule bit_word_eqI; auto simp: bit_simps dest: bit_imp_le_length)+

lemma short_list:
  assumes "length bs < 4"
  obtains "bs = []" | a where "bs = [a]" | a b where "bs = [a, b]" | a b c where "bs = [a, b, c]"
  using assms by (auto simp: eval_nat_numeral less_Suc_eq length_Suc_conv)


lemma fgetl_start_long:
  assumes "4 \<le> length bs"
  shows "fgetl \<lparr>contents = bs, fpos = 0\<rparr> = (le32 bs 0, \<lparr>contents = bs, fpos = 4\<rparr>)"
  using fgetl_at [of 0 "\<lparr>contents = bs, fpos = 0\<rparr>"] assms by simp

lemma fgetl_start_short:
  assumes "length bs < 4"
  shows "bit (fst (fgetl \<lparr>contents = bs, fpos = 0\<rparr>)) 31"
    and "snd (fgetl \<lparr>contents = bs, fpos = 0\<rparr>) = \<lparr>contents = bs, fpos = length bs\<rparr>"
  using assms
  by (cases bs rule: short_list; simp add: fgetl_def fgetc_def EOF_def bit_simps)+

lemma fgetl_start_snd:
  "snd (fgetl \<lparr>contents = bs, fpos = 0\<rparr>) = \<lparr>contents = bs, fpos = min 4 (length bs)\<rparr>"
proof (cases "4 \<le> length bs")
  case True
  then show ?thesis by (simp add: fgetl_start_long)
next
  case False
  then show ?thesis by (simp add: fgetl_start_short(2))
qed

lemma le32_magick:
  assumes "4 \<le> length bs"
  shows "le32 bs 0 = SIF_MAGICK \<longleftrightarrow> take 4 bs = SIF_MAGICK_bytes"
proof -
  from assms obtain a b c d rest where bs: "bs = a # b # c # d # rest"
    by (cases bs; simp) (rename_tac r, case_tac r; simp; rename_tac r, case_tac r; simp; rename_tac r, case_tac r; simp)
  have e: "le32 bs 0 = push_bit 24 (ucast d) OR push_bit 16 (ucast c) OR push_bit 8 (ucast b) OR ucast a"
    by (simp add: le32_def bs le_bytes_or_add)
  show ?thesis
  proof
    assume "le32 bs 0 = SIF_MAGICK"
    from le_bytes_inject [OF this [unfolded e]] show "take 4 bs = SIF_MAGICK_bytes"
      by (simp add: bs SIF_MAGICK_bytes_def SIF_MAGICK_def)
  next
    assume "take 4 bs = SIF_MAGICK_bytes"
    then show "le32 bs 0 = SIF_MAGICK"
      by (simp add: bs SIF_MAGICK_bytes_def SIF_MAGICK_def le32_def)
  qed
qed

lemma fgetl_magick:
  "fst (fgetl \<lparr>contents = bs, fpos = 0\<rparr>) = SIF_MAGICK \<longleftrightarrow> take 4 bs = SIF_MAGICK_bytes"
proof (cases "4 \<le> length bs")
  case True
  then show ?thesis by (simp add: fgetl_start_long le32_magick)
next
  case False
  then have "bit (fst (fgetl \<lparr>contents = bs, fpos = 0\<rparr>)) 31"
    by (simp add: fgetl_start_short(1))
  moreover have "\<not> bit SIF_MAGICK 31"
    by (simp add: SIF_MAGICK_def)
  moreover have "take 4 bs \<noteq> SIF_MAGICK_bytes"
  proof
    assume "take 4 bs = SIF_MAGICK_bytes"
    then have "length (take 4 bs) = 4" by (simp add: SIF_MAGICK_bytes_def)
    with False show False by simp
  qed
  ultimately show ?thesis by auto
qed

lemma ClearIndex_simps [simp]:
  "fIndex (ClearIndex s) = []" "fFP (ClearIndex s) = fFP s"
  "trace (ClearIndex s) = trace s" "brk (ClearIndex s) = brk s"
  by (simp_all add: ClearIndex_def)

lemma fgetc_in:
  "fpos fp < length (contents fp) \<Longrightarrow>
   fgetc fp = (uint (contents fp ! fpos fp), fp\<lparr>fpos := Suc (fpos fp)\<rparr>)"
  by (simp add: fgetc_def)

lemma fgetc_contents: "fgetc fp = (c, fp') \<Longrightarrow> contents fp' = contents fp"
  by (auto simp: fgetc_def split: if_splits)

lemma fgetl_contents: "fgetl fp = (w, fp') \<Longrightarrow> contents fp' = contents fp"
proof -
  assume a: "fgetl fp = (w, fp')"
  obtain a fp1 where 1: "fgetc fp = (a, fp1)" by (cases "fgetc fp")
  obtain b fp2 where 2: "fgetc fp1 = (b, fp2)" by (cases "fgetc fp1")
  obtain c fp3 where 3: "fgetc fp2 = (c, fp3)" by (cases "fgetc fp2")
  obtain d fp4 where 4: "fgetc fp3 = (d, fp4)" by (cases "fgetc fp3")
  from a have "fp' = fp4" by (simp add: fgetl_def 1 2 3 4)
  with fgetc_contents [OF 1] fgetc_contents [OF 2] fgetc_contents [OF 3] fgetc_contents [OF 4]
  show ?thesis by simp
qed

text \<open>One descriptor, read where the format puts it.\<close>

lemma read_descriptor:
  assumes pos: "fpos fp = 5 + 9 * k"
    and len: "5 + 9 * (k + 1) \<le> length (contents fp)"
  shows "fgetc fp = (type (declared (contents fp) k), fp\<lparr>fpos := 6 + 9 * k\<rparr>)"
    and "fgetl (fp\<lparr>fpos := 6 + 9 * k\<rparr>)
           = (foffset (declared (contents fp) k), fp\<lparr>fpos := 10 + 9 * k\<rparr>)"
    and "fgetl (fp\<lparr>fpos := 10 + 9 * k\<rparr>)
           = (length_sif (declared (contents fp) k), fp\<lparr>fpos := 5 + 9 * (k + 1)\<rparr>)"
proof -
  show "fgetc fp = (type (declared (contents fp) k), fp\<lparr>fpos := 6 + 9 * k\<rparr>)"
    using pos len by (simp add: fgetc_in declared_def)
  show "fgetl (fp\<lparr>fpos := 6 + 9 * k\<rparr>)
           = (foffset (declared (contents fp) k), fp\<lparr>fpos := 10 + 9 * k\<rparr>)"
    using len fgetl_at [of "6 + 9 * k" fp] by (simp add: declared_def)
  show "fgetl (fp\<lparr>fpos := 10 + 9 * k\<rparr>)
           = (length_sif (declared (contents fp) k), fp\<lparr>fpos := 5 + 9 * (k + 1)\<rparr>)"
    using len fgetl_at [of "10 + 9 * k" fp] by (simp add: declared_def)
qed

lemma LoadHeader_loop_shape:
  "\<exists>new fp'. LoadHeader_loop i n fp idx = (idx @ new, fp')
      \<and> length new = nat (n - i) \<and> (\<forall>e \<in> set new. data e = None)
      \<and> contents fp' = contents fp"
proof (induction i n fp idx rule: LoadHeader_loop.induct)
  case (1 i n fp idx)
  show ?case
  proof (cases "i < n")
    case False
    then show ?thesis
      by (subst LoadHeader_loop.simps) simp
  next
    case True
    obtain ty fp1 where 1: "fgetc fp = (ty, fp1)" by (cases "fgetc fp")
    obtain off fp2 where 2: "fgetl fp1 = (off, fp2)" by (cases "fgetl fp1")
    obtain len fp3 where 3: "fgetl fp2 = (len, fp3)" by (cases "fgetl fp2")
    let ?e = "\<lparr>type = ty, foffset = off, length_sif = len, data = None\<rparr>"
    from "1.IH" [OF True refl 1 [symmetric] refl 2 [symmetric] refl 3 [symmetric] refl]
    obtain new fp' where r: "LoadHeader_loop (i + 1) n fp3 (idx @ [?e]) = ((idx @ [?e]) @ new, fp')"
      and l: "length new = nat (n - (i + 1))" and d: "\<forall>e \<in> set new. data e = None"
      and c: "contents fp' = contents fp3"
      by blast
    have "LoadHeader_loop i n fp idx = (idx @ (?e # new), fp')"
      by (subst LoadHeader_loop.simps) (simp add: True 1 2 3 r)
    moreover have "length (?e # new) = nat (n - i)"
      using l True by simp
    moreover have "\<forall>e \<in> set (?e # new). data e = None"
      using d by simp
    moreover have "contents fp' = contents fp"
      using c fgetc_contents [OF 1] fgetl_contents [OF 2] fgetl_contents [OF 3] by simp
    ultimately show ?thesis by blast
  qed
qed


text \<open>Every descriptor that lies in the file in full is read as the format says.\<close>

lemma LoadHeader_loop_entries:
  "fpos fp = 5 + 9 * k \<Longrightarrow> j < nat (n - i) \<Longrightarrow>
   5 + 9 * (k + j + 1) \<le> length (contents fp) \<Longrightarrow>
   fst (LoadHeader_loop i n fp idx) ! (length idx + j) = declared (contents fp) (k + j)"
proof (induction i n fp idx arbitrary: k j rule: LoadHeader_loop.induct)
  case (1 i n fp idx)
  from "1.prems" have lt: "i < n" and len: "5 + 9 * (k + 1) \<le> length (contents fp)"
    by simp_all
  let ?e = "declared (contents fp) k"
  let ?fp3 = "fp\<lparr>fpos := 5 + 9 * (k + 1)\<rparr>"
  note rd = read_descriptor [OF "1.prems"(1) len]
  have e: "\<lparr>type = type ?e, foffset = foffset ?e, length_sif = length_sif ?e, data = None\<rparr> = ?e"
    by (simp add: declared_def)
  have step: "LoadHeader_loop i n fp idx = LoadHeader_loop (i + 1) n ?fp3 (idx @ [?e])"
    by (subst LoadHeader_loop.simps) (simp add: lt rd e del: One_nat_def)
  show ?case
  proof (cases j)
    case 0
    from LoadHeader_loop_shape [of "i + 1" n ?fp3 "idx @ [?e]"]
    obtain new fp' where "LoadHeader_loop (i + 1) n ?fp3 (idx @ [?e]) = ((idx @ [?e]) @ new, fp')"
      by blast
    then show ?thesis
      by (simp add: step 0)
  next
    case (Suc j')
    have "fst (LoadHeader_loop (i + 1) n ?fp3 (idx @ [?e])) ! (length (idx @ [?e]) + j')
            = declared (contents ?fp3) (k + 1 + j')"
      using "1.prems" Suc
      by (intro "1.IH" [OF lt refl rd(1) [symmetric] refl rd(2) [symmetric] refl rd(3) [symmetric] e [symmetric]])
         simp_all
    then show ?thesis
      by (simp add: step Suc)
  qed
qed

lemma LoadHeader_open_failed:
  assumes "fs filename = None"
  shows "LoadHeader fs filename s
           = (True, (ClearIndex s)\<lparr>fFP := None, trace := trace s @ [ERR_open_failed filename]\<rparr>)"
  using assms by (simp add: LoadHeader_def fopen_def NX_ERR_def)

lemma LoadHeader_magick_failed:
  assumes "fs filename = Some bs" and "take 4 bs \<noteq> SIF_MAGICK_bytes"
  shows "LoadHeader fs filename s
           = (True, (ClearIndex s)\<lparr>fFP := Some \<lparr>contents = bs, fpos = min 4 (length bs)\<rparr>,
                trace := trace s @ [ERR_magick_failed,
                                    ERR_expected_got SIF_MAGICK
                                      (fst (fgetl \<lparr>contents = bs, fpos = 0\<rparr>))]\<rparr>)"
proof -
  obtain w fp1 where g: "fgetl \<lparr>contents = bs, fpos = 0\<rparr> = (w, fp1)"
    by (cases "fgetl \<lparr>contents = bs, fpos = 0\<rparr>")
  from g fgetl_magick [of bs] assms(2) have ne: "w \<noteq> SIF_MAGICK"
    by simp
  from g fgetl_start_snd [of bs] have fp1: "fp1 = \<lparr>contents = bs, fpos = min 4 (length bs)\<rparr>"
    by simp
  show ?thesis
    using assms(1) by (simp add: LoadHeader_def fopen_def g ne fp1 NX_ERR_def)
qed

lemma LoadHeader_ok:
  assumes "fs filename = Some bs" and "take 4 bs = SIF_MAGICK_bytes"
    and "fgetc \<lparr>contents = bs, fpos = 4\<rparr> = (n, fp2)"
    and "LoadHeader_loop 0 n fp2 [] = (idx, fp3)"
  shows "LoadHeader fs filename s
           = (False, (ClearIndex s)\<lparr>fIndex := idx, fFP := Some fp3,
                trace := trace s @ [LOG_read_index n]\<rparr>)"
proof -
  from assms(2) have l: "4 \<le> length bs"
    by (cases "4 \<le> length bs") (auto simp: SIF_MAGICK_bytes_def dest: arg_cong [where f = length])
  with assms(2) have g: "fgetl \<lparr>contents = bs, fpos = 0\<rparr> = (SIF_MAGICK, \<lparr>contents = bs, fpos = 4\<rparr>)"
    by (simp add: fgetl_start_long le32_magick)
  show ?thesis
    using assms(1,3,4) by (simp add: LoadHeader_def fopen_def g NX_LOG_def)
qed


lemma LoadHeader_loop_complete:
  "fpos fp = 5 + 9 * k \<Longrightarrow> 5 + 9 * (k + nat (n - i)) \<le> length (contents fp) \<Longrightarrow>
   LoadHeader_loop i n fp idx
     = (idx @ map (declared (contents fp)) [k..<k + nat (n - i)],
        fp\<lparr>fpos := 5 + 9 * (k + nat (n - i))\<rparr>)"
proof (induction i n fp idx arbitrary: k rule: LoadHeader_loop.induct)
  case (1 i n fp idx)
  show ?case
  proof (cases "i < n")
    case False
    then show ?thesis
      using "1.prems"(1) by (subst LoadHeader_loop.simps) simp
  next
    case lt: True
    then have m: "nat (n - i) = Suc (nat (n - (i + 1)))"
      by simp
    with "1.prems" have len: "5 + 9 * (k + 1) \<le> length (contents fp)"
      by simp
    let ?e = "declared (contents fp) k"
    let ?fp3 = "fp\<lparr>fpos := 5 + 9 * (k + 1)\<rparr>"
    note rd = read_descriptor [OF "1.prems"(1) len]
    have e: "\<lparr>type = type ?e, foffset = foffset ?e, length_sif = length_sif ?e, data = None\<rparr> = ?e"
      by (simp add: declared_def)
    have step: "LoadHeader_loop i n fp idx = LoadHeader_loop (i + 1) n ?fp3 (idx @ [?e])"
      by (subst LoadHeader_loop.simps) (simp add: lt rd e del: One_nat_def)
    have "LoadHeader_loop (i + 1) n ?fp3 (idx @ [?e])
            = ((idx @ [?e]) @ map (declared (contents ?fp3)) [k + 1..<k + 1 + nat (n - (i + 1))],
               ?fp3\<lparr>fpos := 5 + 9 * (k + 1 + nat (n - (i + 1)))\<rparr>)"
      using "1.prems" m
      by (intro "1.IH" [OF lt refl rd(1) [symmetric] refl rd(2) [symmetric] refl rd(3) [symmetric] e [symmetric]])
         simp_all
    then show ?thesis
      by (simp add: step m upt_conv_Cons del: upt_Suc)
  qed
qed

lemma LoadHeader_complete:
  assumes "fs filename = Some bs" and "take 4 bs = SIF_MAGICK_bytes"
    and "5 + 9 * section_count bs \<le> length bs"
  shows "LoadHeader fs filename s
           = (False, (ClearIndex s)\<lparr>fIndex := map (declared bs) [0..<section_count bs],
                fFP := Some \<lparr>contents = bs, fpos = 5 + 9 * section_count bs\<rparr>,
                trace := trace s @ [LOG_read_index (int (section_count bs))]\<rparr>)"
proof -
  let ?fp2 = "\<lparr>contents = bs, fpos = 5\<rparr>"
  have 1: "fgetc \<lparr>contents = bs, fpos = 4\<rparr> = (int (section_count bs), ?fp2)"
    using assms(3) by (simp add: fgetc_def section_count_def)
  have 2: "LoadHeader_loop 0 (int (section_count bs)) ?fp2 []
             = (map (declared bs) [0..<section_count bs],
                \<lparr>contents = bs, fpos = 5 + 9 * section_count bs\<rparr>)"
    using LoadHeader_loop_complete [of ?fp2 0 "int (section_count bs)" 0 "[]"] assms(3)
    by simp
  show ?thesis
    by (rule LoadHeader_ok [of fs filename, OF assms(1,2) 1 2])
qed

subsection \<open>Claims about LoadHeader\<close>

text \<open>
  C9. The result of \<open>LoadHeader\<close> is true exactly when the call failed, that is when
  the file could not be opened or its first four bytes are not the signature; on
  success the result is false.
\<close>

theorem LoadHeader_result_inverted:
  "fst (LoadHeader fs filename s)
     = (case fs filename of None \<Rightarrow> True | Some bs \<Rightarrow> take 4 bs \<noteq> SIF_MAGICK_bytes)"
proof (cases "fs filename")
  case None
  then show ?thesis
    by (simp add: LoadHeader_open_failed)
next
  case (Some bs)
  show ?thesis
  proof (cases "take 4 bs = SIF_MAGICK_bytes")
    case False
    with Some show ?thesis
      by (simp add: LoadHeader_magick_failed)
  next
    case True
    obtain n fp2 where 1: "fgetc \<lparr>contents = bs, fpos = 4\<rparr> = (n, fp2)"
      by (cases "fgetc \<lparr>contents = bs, fpos = 4\<rparr>")
    obtain idx fp3 where 2: "LoadHeader_loop 0 n fp2 [] = (idx, fp3)"
      by (cases "LoadHeader_loop 0 n fp2 []")
    from Some True show ?thesis
      by (simp add: LoadHeader_ok [of fs filename, OF Some True 1 2])
  qed
qed

theorem LoadHeader_result_inverted_witness:
  "example_fs ''sprites.sif'' = Some example_file
   \<and> take 4 example_file = SIF_MAGICK_bytes
   \<and> fst (LoadHeader example_fs ''sprites.sif'' SIFLoader) = False
   \<and> example_fs ''missing.sif'' = None
   \<and> fst (LoadHeader example_fs ''missing.sif'' SIFLoader) = True"
proof -
  have 1: "example_fs ''sprites.sif'' = Some example_file"
    and 2: "take 4 example_file = SIF_MAGICK_bytes"
    and 3: "example_fs ''missing.sif'' = None"
    by (simp_all add: example_fs_def example_file_def SIF_MAGICK_bytes_def)
  from LoadHeader_result_inverted [of example_fs "''sprites.sif''" SIFLoader]
    LoadHeader_result_inverted [of example_fs "''missing.sif''" SIFLoader] 1 2 3
  show ?thesis by simp
qed

text \<open>
  C1, as stated, does not hold: after a failed signature check the index is empty,
  but the file that was opened for the check is still open, four bytes in.
\<close>

theorem LoadHeader_failed_handle_counterexample:
  "fst (LoadHeader example_fs ''readme.txt'' SIFLoader)
   \<and> fIndex (snd (LoadHeader example_fs ''readme.txt'' SIFLoader)) = []
   \<and> fFP (snd (LoadHeader example_fs ''readme.txt'' SIFLoader))
       = Some \<lparr>contents = [0x6e, 0x78, 0x0a, 0x0a, 0x0a], fpos = 4\<rparr>"
  by (simp add: LoadHeader_def example_fs_def fopen_def fgetl_def fgetc_def SIF_MAGICK_def
      NX_ERR_def)

text \<open>
  C1, amended. A failed \<open>LoadHeader\<close> leaves the index empty. No file is open
  afterwards when the file could not be opened; when the signature check failed,
  the file just opened stays open, positioned behind the bytes the check has read.
\<close>

theorem LoadHeader_failed_state:
  assumes "fst (LoadHeader fs filename s)"
  shows "fIndex (snd (LoadHeader fs filename s)) = []
       \<and> fFP (snd (LoadHeader fs filename s))
           = (case fs filename of
                None \<Rightarrow> None
              | Some bs \<Rightarrow> Some \<lparr>contents = bs, fpos = min 4 (length bs)\<rparr>)"
proof (cases "fs filename")
  case None
  then show ?thesis
    by (simp add: LoadHeader_open_failed)
next
  case (Some bs)
  have "take 4 bs \<noteq> SIF_MAGICK_bytes"
  proof
    assume m: "take 4 bs = SIF_MAGICK_bytes"
    obtain n fp2 where 1: "fgetc \<lparr>contents = bs, fpos = 4\<rparr> = (n, fp2)"
      by (cases "fgetc \<lparr>contents = bs, fpos = 4\<rparr>")
    obtain idx fp3 where 2: "LoadHeader_loop 0 n fp2 [] = (idx, fp3)"
      by (cases "LoadHeader_loop 0 n fp2 []")
    from assms show False
      by (simp add: LoadHeader_ok [of fs filename, OF Some m 1 2])
  qed
  with Some show ?thesis
    by (simp add: LoadHeader_magick_failed)
qed

theorem LoadHeader_failed_state_witness:
  "fst (LoadHeader example_fs ''missing.sif'' example_loaded)
   \<and> fIndex (snd (LoadHeader example_fs ''missing.sif'' example_loaded)) = []
   \<and> fFP (snd (LoadHeader example_fs ''missing.sif'' example_loaded)) = None
   \<and> fst (LoadHeader example_fs ''readme.txt'' example_loaded)
   \<and> fIndex (snd (LoadHeader example_fs ''readme.txt'' example_loaded)) = []
   \<and> fFP (snd (LoadHeader example_fs ''readme.txt'' example_loaded))
       = Some \<lparr>contents = [0x6e, 0x78, 0x0a, 0x0a, 0x0a], fpos = 4\<rparr>"
proof -
  have n: "example_fs ''missing.sif'' = None"
    by (simp add: example_fs_def)
  then have f: "fst (LoadHeader example_fs ''missing.sif'' example_loaded)"
    by (simp add: LoadHeader_open_failed)
  have m: "example_fs ''readme.txt'' = Some [0x6e, 0x78, 0x0a, 0x0a, 0x0a]"
    by (simp add: example_fs_def)
  have "take 4 [0x6e, 0x78, 0x0a, 0x0a, 0x0a] \<noteq> SIF_MAGICK_bytes"
    by (simp add: SIF_MAGICK_bytes_def)
  then have g: "fst (LoadHeader example_fs ''readme.txt'' example_loaded)"
    by (simp add: LoadHeader_magick_failed [of example_fs "''readme.txt''", OF m])
  from LoadHeader_failed_state [OF f] LoadHeader_failed_state [OF g] f g n m show ?thesis
    by simp
qed

text \<open>
  C7. For a file that starts with the signature and has a count byte \<open>N\<close>,
  \<open>LoadHeader\<close> succeeds and leaves the file open; the index has exactly \<open>N\<close>
  descriptors, none with a buffer; every descriptor whose nine bytes lie in the file
  has the type byte, the little-endian offset and the little-endian length found
  there; and when all \<open>N\<close> descriptors lie in the file, the index is the declared
  descriptors in file order and the file position is behind the last of them.
\<close>

theorem LoadHeader_reads_index:
  assumes "fs filename = Some bs"
    and "take 4 bs = SIF_MAGICK_bytes"
    and "4 < length bs"
    and "LoadHeader fs filename s = (failed, s')"
  shows "\<not> failed
       \<and> (\<exists>fp. fFP s' = Some fp \<and> contents fp = bs)
       \<and> length (fIndex s') = section_count bs
       \<and> (\<forall>i < section_count bs. data (fIndex s' ! i) = None)
       \<and> (\<forall>i < section_count bs. 5 + 9 * (i + 1) \<le> length bs \<longrightarrow> fIndex s' ! i = declared bs i)
       \<and> (5 + 9 * section_count bs \<le> length bs \<longrightarrow>
            fIndex s' = map (declared bs) [0..<section_count bs]
            \<and> fFP s' = Some \<lparr>contents = bs, fpos = 5 + 9 * section_count bs\<rparr>)"
proof -
  let ?n = "int (section_count bs)"
  let ?fp2 = "\<lparr>contents = bs, fpos = 5\<rparr>"
  have 1: "fgetc \<lparr>contents = bs, fpos = 4\<rparr> = (?n, ?fp2)"
    using assms(3) by (simp add: fgetc_def section_count_def)
  from LoadHeader_loop_shape [of 0 ?n ?fp2 "[]"]
  obtain idx fp3 where 2: "LoadHeader_loop 0 ?n ?fp2 [] = (idx, fp3)"
    and l: "length idx = section_count bs" and d: "\<forall>e \<in> set idx. data e = None"
    and c: "contents fp3 = bs"
    by auto
  from LoadHeader_ok [of fs filename, OF assms(1,2) 1 2, of s] assms(4)
  have r: "\<not> failed" "fIndex s' = idx" "fFP s' = Some fp3"
    by auto
  have e: "idx ! i = declared bs i" if "i < section_count bs" "5 + 9 * (i + 1) \<le> length bs" for i
    using LoadHeader_loop_entries [of ?fp2 0 i ?n 0 "[]"] that by (simp add: 2)
  have full: "fIndex s' = map (declared bs) [0..<section_count bs]
            \<and> fFP s' = Some \<lparr>contents = bs, fpos = 5 + 9 * section_count bs\<rparr>"
    if "5 + 9 * section_count bs \<le> length bs"
    using LoadHeader_complete [of fs filename, OF assms(1,2) that, of s] assms(4) by auto
  show ?thesis
    using r l d c e full by auto
qed

theorem LoadHeader_reads_index_witness:
  "example_fs ''sprites.sif'' = Some example_file
   \<and> take 4 example_file = SIF_MAGICK_bytes
   \<and> section_count example_file = 2
   \<and> fst (LoadHeader example_fs ''sprites.sif'' SIFLoader) = False
   \<and> fIndex (snd (LoadHeader example_fs ''sprites.sif'' SIFLoader))
       = [\<lparr>type = 1, foffset = 23, length_sif = 4, data = None\<rparr>,
          \<lparr>type = 2, foffset = 27, length_sif = 8, data = None\<rparr>]
   \<and> fFP (snd (LoadHeader example_fs ''sprites.sif'' SIFLoader))
       = Some \<lparr>contents = example_file, fpos = 23\<rparr>"
proof -
  have 1: "example_fs ''sprites.sif'' = Some example_file"
    by (simp add: example_fs_def)
  have 2: "take 4 example_file = SIF_MAGICK_bytes"
    by (simp add: example_file_def SIF_MAGICK_bytes_def)
  have 3: "4 < length example_file"
    by (simp add: example_file_def)
  have n: "section_count example_file = 2"
    by (simp add: section_count_def example_file_def)
  have 5: "5 + 9 * section_count example_file \<le> length example_file"
    by (simp add: n) (simp add: example_file_def)
  have d: "map (declared example_file) [0..<2]
             = [\<lparr>type = 1, foffset = 23, length_sif = 4, data = None\<rparr>,
                \<lparr>type = 2, foffset = 27, length_sif = 8, data = None\<rparr>]"
    by (simp add: declared_def le32_def example_file_def upt_conv_Cons)
  obtain failed s' where r: "LoadHeader example_fs ''sprites.sif'' SIFLoader = (failed, s')"
    by (cases "LoadHeader example_fs ''sprites.sif'' SIFLoader")
  from LoadHeader_reads_index [of example_fs "''sprites.sif''", OF 1 2 3 r] 1 2 5 n d r show ?thesis
    by simp
qed

subsection \<open>Lookups after the header has been read\<close>

lemma wellformed_sifD:
  assumes "wellformed_sif bs"
  shows "take 4 bs = SIF_MAGICK_bytes" and "5 + 9 * section_count bs \<le> length bs"
    and "k < section_count bs \<Longrightarrow>
         unat (foffset (declared bs k)) + unat (length_sif (declared bs k)) \<le> length bs"
  using assms by (auto simp: wellformed_sif_def list_all_iff)

lemma fread_section:
  assumes "off + n \<le> length (contents fp)"
  shows "fst (fread n (fseek fp off)) = map Some (take n (drop off (contents fp)))"
    and "contents (snd (fread n (fseek fp off))) = contents fp"
  using assms by (simp_all add: fread_def fseek_def Let_def)

lemma fread_contents: "contents (snd (fread n fp)) = contents fp"
  by (simp add: fread_def Let_def)

lemma holds_index_LoadHeader:
  assumes "fs filename = Some bs" and "wellformed_sif bs"
  shows "holds_index bs (snd (LoadHeader fs filename s))"
  using LoadHeader_complete [of fs filename, OF assms(1) wellformed_sifD(1,2) [OF assms(2)], of s]
  by (simp add: holds_index_def declared_def)

text \<open>A lookup in such a state: what it returns, and that the state stays such a state.\<close>

lemma holds_index_FindSection:
  assumes wf: "wellformed_sif bs" and inv: "holds_index bs s"
    and r: "FindSection ty lo s = (p, out, s')"
  shows "holds_index bs s'"
    and "i < section_count bs \<Longrightarrow> type (declared bs i) = ty \<Longrightarrow>
         \<forall>j < i. type (declared bs j) \<noteq> ty \<Longrightarrow>
         \<exists>a. p = Some a \<and> heap s' a = Some (map Some (payload bs (declared bs i)))
              \<and> out = store_out lo (length_sif (declared bs i))"
proof -
  from inv obtain fp where fp: "fFP s = Some fp" "contents fp = bs"
    and len: "length (fIndex s) = section_count bs"
    and ent: "\<And>k. k < section_count bs \<Longrightarrow>
        type (fIndex s ! k) = type (declared bs k) \<and>
        foffset (fIndex s ! k) = foffset (declared bs k) \<and>
        length_sif (fIndex s ! k) = length_sif (declared bs k) \<and>
        (\<forall>a. data (fIndex s ! k) = Some a \<longrightarrow>
           a < brk s \<and> heap s a = Some (map Some (payload bs (declared bs k))))"
    by (auto simp: holds_index_def)
  have "holds_index bs s' \<and> (i < section_count bs \<longrightarrow> type (declared bs i) = ty \<longrightarrow>
         (\<forall>j < i. type (declared bs j) \<noteq> ty) \<longrightarrow>
         (\<exists>a. p = Some a \<and> heap s' a = Some (map Some (payload bs (declared bs i)))
              \<and> out = store_out lo (length_sif (declared bs i))))"
  proof (cases "fIndex s" ty rule: first_of_type)
    case none
    with r have "s' = s" by (simp add: FindSection_none)
    moreover have False if "i < section_count bs" "type (declared bs i) = ty"
      using none that ent [of i] len nth_mem [of i "fIndex s"] by auto
    ultimately show ?thesis using inv by auto
  next
    case (first pre e post)
    let ?k = "length pre"
    have k: "?k < section_count bs" and ek: "fIndex s ! ?k = e"
      using first(1) len by (auto simp: nth_append)
    note entk = ent [OF k, unfolded ek]
    have prek: "type (declared bs j) \<noteq> ty" if "j < ?k" for j
    proof -
      from that k have "j < section_count bs" by simp
      from ent [OF this] that first(1,2) show ?thesis
        by (auto simp: nth_append)
    qed
    have ik: "i = ?k" if "i < section_count bs" "type (declared bs i) = ty"
      "\<forall>j < i. type (declared bs j) \<noteq> ty"
    proof (rule ccontr)
      assume "i \<noteq> ?k"
      then consider "i < ?k" | "?k < i" by linarith
      then show False
      proof cases
        case 1
        from prek [OF this] that(2) show False by simp
      next
        case 2
        with that(3) entk first(3) show False by auto
      qed
    qed
    note f = FindSection_first [OF first, of lo, unfolded r]
    show ?thesis
    proof (cases "data e")
      case (Some a)
      with f have "p = Some a" "out = store_out lo (length_sif e)" "s' = s"
        by simp_all
      then show ?thesis
        using inv entk Some ik by auto
    next
      case None
      let ?off = "unat (foffset e)" and ?n = "unat (length_sif e)"
      let ?rd = "fread ?n (fseek fp ?off)"
      let ?e' = "e\<lparr>data := Some (brk s)\<rparr>"
      from f None fp have p: "p = Some (brk s)" and out: "out = store_out lo (length_sif e)"
        and idx': "fIndex s' = pre @ ?e' # post"
        and fp': "fFP s' = Some (snd ?rd)"
        and heap': "heap s' = (heap s)(brk s \<mapsto> fst ?rd)"
        and brk': "brk s' = Suc (brk s)"
        by simp_all
      have "?off + ?n \<le> length (contents fp)"
        using wellformed_sifD(3) [OF wf k] entk fp(2) by simp
      from fread_section [OF this]
      have buf: "fst ?rd = map Some (payload bs (declared bs ?k))" and c: "contents (snd ?rd) = bs"
        using entk fp(2) by (simp_all add: payload_def)
      have upd: "fIndex s' = (fIndex s)[?k := ?e']"
        using idx' first(1) by simp
      have "holds_index bs s'"
        unfolding holds_index_def
      proof (intro conjI allI impI)
        show "\<exists>fp. fFP s' = Some fp \<and> contents fp = bs"
          using fp' c by simp
        show "length (fIndex s') = section_count bs"
          using upd len by simp
      next
        fix j assume j: "j < section_count bs"
        show "type (fIndex s' ! j) = type (declared bs j)"
          "foffset (fIndex s' ! j) = foffset (declared bs j)"
          "length_sif (fIndex s' ! j) = length_sif (declared bs j)"
          using ent [OF j] entk j k len by (auto simp: upd nth_list_update)
      next
        fix j a assume j: "j < section_count bs" and a: "data (fIndex s' ! j) = Some a"
        show "a < brk s'"
          using ent [OF j] j k len a by (auto simp: upd nth_list_update brk' split: if_splits)
        show "heap s' a = Some (map Some (payload bs (declared bs j)))"
          using ent [OF j] j k len a buf
          by (auto simp: upd nth_list_update heap' split: if_splits)
      qed
      moreover have "heap s' (brk s) = Some (map Some (payload bs (declared bs ?k)))"
        by (simp add: heap' buf)
      ultimately show ?thesis
        using p out entk ik by auto
    qed
  qed
  then show "holds_index bs s'"
    and "i < section_count bs \<Longrightarrow> type (declared bs i) = ty \<Longrightarrow>
         \<forall>j < i. type (declared bs j) \<noteq> ty \<Longrightarrow>
         \<exists>a. p = Some a \<and> heap s' a = Some (map Some (payload bs (declared bs i)))
              \<and> out = store_out lo (length_sif (declared bs i))"
    by blast+
qed


lemma holds_index_FindSections:
  "wellformed_sif bs \<Longrightarrow> holds_index bs s \<Longrightarrow> holds_index bs (FindSections tys s)"
proof (induction tys arbitrary: s)
  case Nil
  then show ?case by simp
next
  case (Cons ty tys)
  obtain p out s' where r: "FindSection ty True s = (p, out, s')"
    by (cases "FindSection ty True s")
  from holds_index_FindSection(1) [OF Cons.prems r] have "holds_index bs s'" .
  from Cons.IH [OF Cons.prems(1) this] show ?case
    by (simp add: r)
qed

text \<open>
  C2. Let the file be well-formed and its header loaded by \<open>LoadHeader\<close>, and let
  any lookups have been made since. Then \<open>FindSection\<close> for the type of a declared
  descriptor, the first one of that type, returns a buffer that holds exactly the
  bytes of the file from the declared offset on, as many as the declared length
  says, and reports that length.
\<close>

theorem FindSection_after_LoadHeader:
  assumes "fs filename = Some bs"
    and "wellformed_sif bs"
    and "i < section_count bs"
    and "\<forall>j < i. type (declared bs j) \<noteq> type (declared bs i)"
    and "FindSection (type (declared bs i)) lo (FindSections tys (snd (LoadHeader fs filename s)))
           = (p, out, s')"
  shows "\<not> fst (LoadHeader fs filename s)
       \<and> (\<exists>a. p = Some a \<and> heap s' a = Some (map Some (payload bs (declared bs i))))
       \<and> length (payload bs (declared bs i)) = unat (length_sif (declared bs i))
       \<and> out = store_out lo (length_sif (declared bs i))"
proof -
  have ok: "\<not> fst (LoadHeader fs filename s)"
    using LoadHeader_complete [of fs filename, OF assms(1) wellformed_sifD(1,2) [OF assms(2)], of s]
    by simp
  have "holds_index bs (FindSections tys (snd (LoadHeader fs filename s)))"
    by (intro holds_index_FindSections holds_index_LoadHeader assms)
  from holds_index_FindSection(2) [OF assms(2) this assms(5) assms(3) refl assms(4)]
  have res: "\<exists>a. p = Some a \<and> heap s' a = Some (map Some (payload bs (declared bs i)))
              \<and> out = store_out lo (length_sif (declared bs i))" .
  have "length (payload bs (declared bs i)) = unat (length_sif (declared bs i))"
    using wellformed_sifD(3) [OF assms(2,3)] by (simp add: payload_def)
  with ok res show ?thesis by blast
qed

theorem FindSection_after_LoadHeader_witness:
  "example_fs ''sprites.sif'' = Some example_file
   \<and> wellformed_sif example_file
   \<and> section_count example_file = 2
   \<and> declared example_file 0 = \<lparr>type = 1, foffset = 23, length_sif = 4, data = None\<rparr>
   \<and> declared example_file (Suc 0) = \<lparr>type = 2, foffset = 27, length_sif = 8, data = None\<rparr>
   \<and> (\<exists>a. fst (FindSection 2 True (FindSections [1, 3] (snd (LoadHeader example_fs ''sprites.sif'' SIFLoader)))) = Some a
          \<and> heap (snd (snd (FindSection 2 True (FindSections [1, 3] (snd (LoadHeader example_fs ''sprites.sif'' SIFLoader)))))) a
              = Some (map Some [20, 21, 22, 23, 24, 25, 26, 27]))
   \<and> fst (snd (FindSection 2 True (FindSections [1, 3] (snd (LoadHeader example_fs ''sprites.sif'' SIFLoader))))) = Some 8"
proof -
  have 1: "example_fs ''sprites.sif'' = Some example_file"
    by (simp add: example_fs_def)
  have n: "section_count example_file = 2"
    by (simp add: section_count_def example_file_def)
  have d0: "declared example_file 0 = \<lparr>type = 1, foffset = 23, length_sif = 4, data = None\<rparr>"
    and d1: "declared example_file (Suc 0) = \<lparr>type = 2, foffset = 27, length_sif = 8, data = None\<rparr>"
    by (simp_all add: declared_def le32_def example_file_def)
  have len: "length example_file = 35"
    by (simp add: example_file_def)
  have wf: "wellformed_sif example_file"
  proof -
    have "take 4 example_file = SIF_MAGICK_bytes"
      by (simp add: example_file_def SIF_MAGICK_bytes_def)
    then show ?thesis
      unfolding wellformed_sif_def n by (simp add: upt_conv_Cons d0 d1 len)
  qed
  have i: "Suc 0 < section_count example_file"
    by (simp add: n)
  have f: "\<forall>j < Suc 0. type (declared example_file j) \<noteq> type (declared example_file (Suc 0))"
    by (simp add: d0 d1)
  have p: "payload example_file (declared example_file (Suc 0)) = [20, 21, 22, 23, 24, 25, 26, 27]"
    by (simp add: payload_def d1) (simp add: example_file_def)
  obtain p out s' where r:
    "FindSection (type (declared example_file (Suc 0))) True
       (FindSections [1, 3] (snd (LoadHeader example_fs ''sprites.sif'' SIFLoader))) = (p, out, s')"
    by (cases "FindSection (type (declared example_file (Suc 0))) True
       (FindSections [1, 3] (snd (LoadHeader example_fs ''sprites.sif'' SIFLoader)))")
  from FindSection_after_LoadHeader [of example_fs "''sprites.sif''", OF 1 wf i f r] r 1 wf n d0 d1 p
  show ?thesis
    by (simp add: store_out_def)
qed

subsection \<open>Repeated lookups\<close>

text \<open>What one lookup can change, whatever type it asks for.\<close>

lemma FindSection_step:
  assumes r: "FindSection ty' lo s = (p, out, s')"
  shows "length (fIndex s') = length (fIndex s)"
    and "j < length (fIndex s) \<Longrightarrow> type (fIndex s' ! j) = type (fIndex s ! j)"
    and "j < length (fIndex s) \<Longrightarrow> data (fIndex s ! j) \<noteq> None \<or> type (fIndex s ! j) \<noteq> ty' \<Longrightarrow>
         fIndex s' ! j = fIndex s ! j"
    and "brk s \<le> brk s'"
    and "a < brk s \<Longrightarrow> heap s' a = heap s a"
    and "fFP s = None \<Longrightarrow> fFP s' = None \<and> fIndex s' = fIndex s \<and> section_reads ty s' = section_reads ty s"
    and "ty' \<noteq> ty \<Longrightarrow> section_reads ty s' = section_reads ty s"
    and "buffers_allocated s \<Longrightarrow> buffers_allocated s'"
proof -
  have "length (fIndex s') = length (fIndex s)
    \<and> (j < length (fIndex s) \<longrightarrow> type (fIndex s' ! j) = type (fIndex s ! j))
    \<and> (j < length (fIndex s) \<longrightarrow> data (fIndex s ! j) \<noteq> None \<or> type (fIndex s ! j) \<noteq> ty' \<longrightarrow>
         fIndex s' ! j = fIndex s ! j)
    \<and> brk s \<le> brk s'
    \<and> (a < brk s \<longrightarrow> heap s' a = heap s a)
    \<and> (fFP s = None \<longrightarrow> fFP s' = None \<and> fIndex s' = fIndex s \<and> section_reads ty s' = section_reads ty s)
    \<and> (ty' \<noteq> ty \<longrightarrow> section_reads ty s' = section_reads ty s)
    \<and> (buffers_allocated s \<longrightarrow> buffers_allocated s')"
  proof (cases "fIndex s" ty' rule: first_of_type)
    case none
    with r have "s' = s" by (simp add: FindSection_none)
    then show ?thesis by simp
  next
    case (first pre e post)
    note f = FindSection_first [OF first, of lo, unfolded r]
    show ?thesis
    proof (cases "data e")
      case (Some b)
      with f have "s' = s" by simp
      then show ?thesis by simp
    next
      case None
      show ?thesis
      proof (cases "fFP s")
        case no_fp: None
        with f None have "s' = NX_ERR ERR_handle_closed s" by simp
        then show ?thesis
          by (simp add: NX_ERR_def disk_reads_def section_reads_def buffers_allocated_def)
      next
        case (Some fp)
        let ?e' = "e\<lparr>data := Some (brk s)\<rparr>"
        from f None Some have idx': "fIndex s' = pre @ ?e' # post"
          and heap': "heap s' = (heap s)(brk s \<mapsto>
                         fst (fread (unat (length_sif e)) (fseek fp (unat (foffset e)))))"
          and brk': "brk s' = Suc (brk s)"
          and tr': "trace s' = trace s @ [LOG_loading ty' (foffset e), FREAD ty' (foffset e) (length_sif e)]"
          by simp_all
        have upd: "fIndex s' = (fIndex s)[length pre := ?e']"
          using idx' first(1) by simp
        have k: "length pre < length (fIndex s)" and ek: "fIndex s ! length pre = e"
          using first(1) by simp_all
        have 1: "length (fIndex s') = length (fIndex s)"
          by (simp add: upd)
        have 2: "type (fIndex s' ! j) = type (fIndex s ! j)" if "j < length (fIndex s)"
          using that k ek by (auto simp: upd nth_list_update)
        have 3: "fIndex s' ! j = fIndex s ! j"
          if "j < length (fIndex s)" "data (fIndex s ! j) \<noteq> None \<or> type (fIndex s ! j) \<noteq> ty'"
          using that k ek None first(3) by (auto simp: upd nth_list_update)
        have 5: "heap s' a = heap s a" if "a < brk s"
          using that heap' by auto
        have 7: "section_reads ty s' = section_reads ty s" if "ty' \<noteq> ty"
          using that by (simp add: section_reads_def tr')
        have 8: "buffers_allocated s'" if "buffers_allocated s"
          unfolding buffers_allocated_def
        proof (intro ballI allI impI)
          fix x b assume x: "x \<in> set (fIndex s')" and b: "data x = Some b"
          from x idx' first(1) consider "x = ?e'" | "x \<in> set (fIndex s)"
            by auto
          then show "b < brk s' \<and> heap s' b \<noteq> None"
          proof cases
            case 1
            with b heap' show ?thesis by (auto simp: brk')
          next
            case 2
            with that b have "b < brk s" "heap s b \<noteq> None"
              by (auto simp: buffers_allocated_def)
            with heap' show ?thesis by (auto simp: brk')
          qed
        qed
        show ?thesis
          using 1 2 3 5 7 8 Some by (simp add: brk')
      qed
    qed
  qed
  then show "length (fIndex s') = length (fIndex s)"
    and "j < length (fIndex s) \<Longrightarrow> type (fIndex s' ! j) = type (fIndex s ! j)"
    and "j < length (fIndex s) \<Longrightarrow> data (fIndex s ! j) \<noteq> None \<or> type (fIndex s ! j) \<noteq> ty' \<Longrightarrow>
         fIndex s' ! j = fIndex s ! j"
    and "brk s \<le> brk s'"
    and "a < brk s \<Longrightarrow> heap s' a = heap s a"
    and "fFP s = None \<Longrightarrow> fFP s' = None \<and> fIndex s' = fIndex s \<and> section_reads ty s' = section_reads ty s"
    and "ty' \<noteq> ty \<Longrightarrow> section_reads ty s' = section_reads ty s"
    and "buffers_allocated s \<Longrightarrow> buffers_allocated s'"
    by blast+
qed


lemma reachable_buffers_allocated: "reachable s \<Longrightarrow> buffers_allocated s"
proof (induction rule: reachable.induct)
  case constructed
  show ?case by (simp add: buffers_allocated_def SIFLoader_def)
next
  case (loaded s fs filename)
  show ?case
  proof (cases "fs filename")
    case None
    then show ?thesis
      by (simp add: LoadHeader_open_failed buffers_allocated_def)
  next
    case (Some bs)
    show ?thesis
    proof (cases "take 4 bs = SIF_MAGICK_bytes")
      case False
      with Some show ?thesis
        by (simp add: LoadHeader_magick_failed buffers_allocated_def)
    next
      case True
      obtain n fp2 where 1: "fgetc \<lparr>contents = bs, fpos = 4\<rparr> = (n, fp2)"
        by (cases "fgetc \<lparr>contents = bs, fpos = 4\<rparr>")
      from LoadHeader_loop_shape [of 0 n fp2 "[]"]
      obtain idx fp3 where 2: "LoadHeader_loop 0 n fp2 [] = (idx, fp3)"
        and d: "\<forall>e \<in> set idx. data e = None"
        by auto
      show ?thesis
        using d by (simp add: LoadHeader_ok [of fs filename, OF Some True 1 2] buffers_allocated_def)
    qed
  qed
next
  case (found s ty length_out)
  obtain p out s' where r: "FindSection ty length_out s = (p, out, s')"
    by (cases "FindSection ty length_out s")
  from FindSection_step(8) [OF r found.IH] show ?case
    by (simp add: r)
next
  case (cleared s)
  show ?case by (simp add: buffers_allocated_def)
next
  case (closed s)
  show ?case by (simp add: buffers_allocated_def CloseFile_def Let_def split: option.splits)
qed

text \<open>The first descriptor of a type, given by its place in the index.\<close>

lemma FindSection_at:
  assumes k: "k < length (fIndex s)"
    and before: "\<forall>j < k. type (fIndex s ! j) \<noteq> ty"
    and at: "type (fIndex s ! k) = ty"
    and cached: "data (fIndex s ! k) = Some a"
  shows "FindSection ty lo s = (Some a, store_out lo (length_sif (fIndex s ! k)), s)"
proof -
  have idx: "fIndex s = take k (fIndex s) @ fIndex s ! k # drop (Suc k) (fIndex s)"
    using k by (simp add: id_take_nth_drop [symmetric])
  have pre: "\<forall>x \<in> set (take k (fIndex s)). type x \<noteq> ty"
  proof
    fix x assume "x \<in> set (take k (fIndex s))"
    then obtain j where "j < k" "x = fIndex s ! j"
      using k by (auto simp: in_set_conv_nth)
    with before show "type x \<noteq> ty" by simp
  qed
  from FindSection_first [OF idx pre at, of lo] cached show ?thesis
    by simp
qed

text \<open>A buffer once cached stays where it is and as it is through later lookups.\<close>

lemma FindSections_cached:
  assumes "k < length (fIndex s)"
    and "\<forall>j < k. type (fIndex s ! j) \<noteq> ty"
    and "type (fIndex s ! k) = ty"
    and "data (fIndex s ! k) = Some a"
    and "a < brk s"
  shows "k < length (fIndex (FindSections tys s))
       \<and> (\<forall>j < k. type (fIndex (FindSections tys s) ! j) \<noteq> ty)
       \<and> fIndex (FindSections tys s) ! k = fIndex s ! k
       \<and> heap (FindSections tys s) a = heap s a
       \<and> section_reads ty (FindSections tys s) = section_reads ty s"
  using assms
proof (induction tys arbitrary: s)
  case Nil
  then show ?case by simp
next
  case (Cons ty' tys)
  obtain p out s' where r: "FindSection ty' True s = (p, out, s')"
    by (cases "FindSection ty' True s")
  note st = FindSection_step [OF r]
  have k': "k < length (fIndex s')"
    using Cons.prems(1) st(1) by simp
  have b': "\<forall>j < k. type (fIndex s' ! j) \<noteq> ty"
    using Cons.prems(1,2) st(2) by simp
  have e': "fIndex s' ! k = fIndex s ! k"
    using Cons.prems(1,4) st(3) [of k] by simp
  have a': "a < brk s'"
    using Cons.prems(5) st(4) by simp
  have h': "heap s' a = heap s a"
    using Cons.prems(5) st(5) by simp
  have rd: "section_reads ty s' = section_reads ty s"
  proof (cases "ty' = ty")
    case True
    from FindSection_at [OF Cons.prems(1-4), of True] r True have "s' = s"
      by simp
    then show ?thesis by simp
  next
    case False
    then show ?thesis by (rule st(7))
  qed
  from Cons.IH [OF k' b' _ _ a'] Cons.prems(3,4) e' h' rd show ?case
    by (simp add: r)
qed

lemma FindSections_none:
  assumes "\<forall>e \<in> set (fIndex s). type e \<noteq> ty"
  shows "(\<forall>e \<in> set (fIndex (FindSections tys s)). type e \<noteq> ty)
       \<and> section_reads ty (FindSections tys s) = section_reads ty s"
  using assms
proof (induction tys arbitrary: s)
  case Nil
  then show ?case by simp
next
  case (Cons ty' tys)
  obtain p out s' where r: "FindSection ty' True s = (p, out, s')"
    by (cases "FindSection ty' True s")
  note st = FindSection_step [OF r]
  have n': "\<forall>e \<in> set (fIndex s'). type e \<noteq> ty"
  proof
    fix e assume "e \<in> set (fIndex s')"
    then obtain j where j: "j < length (fIndex s)" and e: "e = fIndex s' ! j"
      using st(1) by (auto simp: in_set_conv_nth)
    from j Cons.prems have "type (fIndex s ! j) \<noteq> ty"
      by simp
    with st(2) [OF j] e show "type e \<noteq> ty" by simp
  qed
  have rd: "section_reads ty s' = section_reads ty s"
  proof (cases "ty' = ty")
    case True
    with r Cons.prems have "s' = s"
      by (simp add: FindSection_none)
    then show ?thesis by simp
  next
    case False
    then show ?thesis by (rule st(7))
  qed
  from Cons.IH [OF n'] rd show ?case
    by (simp add: r)
qed

lemma FindSections_closed:
  assumes "fFP s = None"
  shows "fFP (FindSections tys s) = None \<and> fIndex (FindSections tys s) = fIndex s
       \<and> section_reads ty (FindSections tys s) = section_reads ty s"
  using assms
proof (induction tys arbitrary: s)
  case Nil
  then show ?case by simp
next
  case (Cons ty' tys)
  obtain p out s' where r: "FindSection ty' True s = (p, out, s')"
    by (cases "FindSection ty' True s")
  from FindSection_step(6) [OF r Cons.prems, of ty]
  have "fFP s' = None" "fIndex s' = fIndex s" "section_reads ty s' = section_reads ty s"
    by simp_all
  with Cons.IH [of s'] show ?case
    by (simp add: r)
qed


lemma split_at_first:
  assumes "xs = pre @ e # post" and "\<forall>x \<in> set pre. type x \<noteq> ty"
  shows "length pre < length xs" and "\<forall>j < length pre. type (xs ! j) \<noteq> ty"
    and "xs ! length pre = e"
  using assms by (simp_all add: nth_append)

text \<open>The argument \<open>length_out\<close> has no influence on the state a lookup leaves.\<close>

lemma FindSection_state_length_out:
  "snd (snd (FindSection ty lo s)) = snd (snd (FindSection ty True s))"
proof (cases "fIndex s" ty rule: first_of_type)
  case none
  then show ?thesis
    by (simp add: FindSection_none)
next
  case (first pre e post)
  then show ?thesis
    by (simp add: FindSection_first split: option.splits)
qed

text \<open>
  C3. In every state the loader can be in, take a call of \<open>FindSection\<close> for a type,
  then any number of further lookups for any types (no \<open>ClearIndex\<close>, no
  \<open>CloseFile\<close>), then a second call for the same type. The second call returns the
  same pointer and the same length as the first; the buffer returned is allocated and
  holds after the second call what it held after the first; after the first call no
  read for the section of this type is issued any more, neither by the lookups in
  between nor by the second call, which issues no read at all; so from before the
  first call to after the second at most one read is issued for that section. (The
  lookups in between are written with a \<open>length_out\<close> that is not null; by
  \<open>FindSection_state_length_out\<close> they leave the same state with a null one.)
\<close>

theorem FindSection_idempotent:
  assumes "reachable s"
    and "FindSection ty lo s = (p1, out1, s1)"
    and "FindSection ty lo (FindSections tys s1) = (p2, out2, s2)"
  shows "p2 = p1 \<and> out2 = out1
       \<and> (\<forall>a. p1 = Some a \<longrightarrow> heap s1 a \<noteq> None \<and> heap s2 a = heap s1 a)
       \<and> section_reads ty s2 = section_reads ty s1
       \<and> section_reads ty s2 \<le> Suc (section_reads ty s)
       \<and> disk_reads s2 = disk_reads (FindSections tys s1)"
proof (cases "fIndex s" ty rule: first_of_type)
  case none
  with assms(2) have 1: "p1 = None" "out1 = store_out lo 0" "s1 = s"
    by (simp_all add: FindSection_none)
  from FindSections_none [OF none, of tys] 1
  have "\<forall>e \<in> set (fIndex (FindSections tys s1)). type e \<noteq> ty"
    and rd: "section_reads ty (FindSections tys s1) = section_reads ty s"
    by simp_all
  from FindSection_none [OF this(1), of lo] assms(3)
  have "p2 = None" "out2 = store_out lo 0" "s2 = FindSections tys s1"
    by simp_all
  with 1 rd show ?thesis by simp
next
  case (first pre e post)
  let ?k = "length pre"
  note f = FindSection_first [OF first, of lo, unfolded assms(2)]
  have again: ?thesis
    if c: "data (fIndex s1 ! ?k) = Some a" "a < brk s1" "heap s1 a \<noteq> None"
      and i: "?k < length (fIndex s1)" "\<forall>j < ?k. type (fIndex s1 ! j) \<noteq> ty"
        "type (fIndex s1 ! ?k) = ty" "length_sif (fIndex s1 ! ?k) = length_sif e"
      and r1: "p1 = Some a" "out1 = store_out lo (length_sif e)"
        "section_reads ty s1 \<le> Suc (section_reads ty s)"
    for a
  proof -
    let ?m = "FindSections tys s1"
    from FindSections_cached [OF i(1,2,3) c(1,2), of tys]
    have m: "?k < length (fIndex ?m)" "\<forall>j < ?k. type (fIndex ?m ! j) \<noteq> ty"
      "fIndex ?m ! ?k = fIndex s1 ! ?k" "heap ?m a = heap s1 a"
      "section_reads ty ?m = section_reads ty s1"
      by simp_all
    from FindSection_at [OF m(1,2), of a lo] m(3) i(3,4) c(1) assms(3)
    have "p2 = Some a" "out2 = store_out lo (length_sif e)" "s2 = ?m"
      by simp_all
    with m r1 c(3) show ?thesis by simp
  qed
  note sp = split_at_first [OF first(1,2)]
  show ?thesis
  proof (cases "data e")
    case (Some a)
    with f have 1: "p1 = Some a" "out1 = store_out lo (length_sif e)" "s1 = s"
      by simp_all
    from reachable_buffers_allocated [OF assms(1)] first(1) Some
    have "a < brk s" "heap s a \<noteq> None"
      by (auto simp: buffers_allocated_def)
    with 1 sp Some first(3) show ?thesis
      by (intro again [of a]) simp_all
  next
    case None
    show ?thesis
    proof (cases "fFP s")
      case no_fp: None
      with f None have 1: "p1 = None" "out1 = store_out lo 0" "s1 = NX_ERR ERR_handle_closed s"
        by simp_all
      then have c1: "fFP s1 = None" and i1: "fIndex s1 = fIndex s"
        and rd1: "section_reads ty s1 = section_reads ty s"
        using no_fp by (simp_all add: NX_ERR_def section_reads_def)
      let ?m = "FindSections tys s1"
      from FindSections_closed [OF c1, of tys ty] i1 first(1)
      have m: "fFP ?m = None" "fIndex ?m = pre @ e # post"
        "section_reads ty ?m = section_reads ty s1"
        by simp_all
      from FindSection_first [OF m(2) first(2,3), of lo] None m(1) assms(3)
      have "p2 = None" "out2 = store_out lo 0" "s2 = NX_ERR ERR_handle_closed ?m"
        by simp_all
      with 1 m(3) rd1 show ?thesis
        by (simp add: NX_ERR_def section_reads_def disk_reads_def)
    next
      case (Some fp)
      let ?e' = "e\<lparr>data := Some (brk s)\<rparr>"
      from f None Some have 1: "p1 = Some (brk s)" "out1 = store_out lo (length_sif e)"
        and idx1: "fIndex s1 = pre @ ?e' # post"
        and h1: "heap s1 (brk s) \<noteq> None"
        and b1: "brk s1 = Suc (brk s)"
        and t1: "trace s1 = trace s @ [LOG_loading ty (foffset e), FREAD ty (foffset e) (length_sif e)]"
        by simp_all
      note sp1 = split_at_first [OF idx1 first(2)]
      have rd1: "section_reads ty s1 \<le> Suc (section_reads ty s)"
        by (simp add: section_reads_def t1)
      from 1 sp1 h1 b1 rd1 first(3) show ?thesis
        by (intro again [of "brk s"]) simp_all
    qed
  qed
qed

lemma example_loaded_reachable: "reachable example_loaded"
proof -
  have "snd (LoadHeader example_fs ''sprites.sif'' SIFLoader) = example_loaded"
    by (simp add: LoadHeader_def example_fs_def example_file_def example_loaded_def SIFLoader_def
        fopen_def ClearIndex_def ClearIndex_loop.simps ItemAt_def fgetl_def fgetc_def EOF_def
        SIF_MAGICK_def NX_LOG_def LoadHeader_loop.simps)
  with reachable.loaded [OF reachable.constructed, of example_fs "''sprites.sif''"]
  show ?thesis by simp
qed

theorem FindSection_idempotent_witness:
  "reachable example_loaded
   \<and> fst (FindSection 1 True example_loaded) = Some 0
   \<and> fst (FindSection 1 True
             (FindSections [2, 3, 1] (snd (snd (FindSection 1 True example_loaded))))) = Some 0
   \<and> section_reads 1
        (snd (snd (FindSection 1 True
             (FindSections [2, 3, 1] (snd (snd (FindSection 1 True example_loaded))))))) \<le> 1"
proof -
  have i: "fIndex example_loaded
             = [] @ \<lparr>type = 1, foffset = 23, length_sif = 4, data = None\<rparr>
                  # [\<lparr>type = 2, foffset = 27, length_sif = 8, data = None\<rparr>]"
    by (simp add: example_loaded_def)
  have 1: "fst (FindSection 1 True example_loaded) = Some 0"
    using FindSection_first [OF i, of "1::int" True] by (simp add: example_loaded_def)
  have 0: "section_reads 1 example_loaded = 0"
    by (simp add: section_reads_def example_loaded_def)
  obtain p1 out1 s1 where r1: "FindSection 1 True example_loaded = (p1, out1, s1)"
    by (cases "FindSection 1 True example_loaded")
  obtain p2 out2 s2 where r2: "FindSection 1 True (FindSections [2, 3, 1] s1) = (p2, out2, s2)"
    by (cases "FindSection 1 True (FindSections [2, 3, 1] s1)")
  from FindSection_idempotent [OF example_loaded_reachable r1 r2] example_loaded_reachable
    1 0 r1 r2
  show ?thesis by simp
qed

end
